theory Spec2Isabelle
  imports Complex_Main "HOL-Library.Log_Nat" "HOL-Library.AList" "HOL-Library.Sublist"
begin

section \<open>JavaScript numbers\<close>

text \<open>
  The scanner computes its score as \<^verbatim>\<open>Math.round((passed.length / total) * 100)\<close>.
  Both operands are JavaScript Numbers, so \<^verbatim>\<open>/\<close> and \<^verbatim>\<open>*\<close> are the IEEE 754 binary64
  operations: the exact result, rounded to the nearest value with a 53 bit significand, ties
  to the even significand. Values are modelled as rationals; \<open>binary64\<close> is that rounding
  (for the normal range; the scores only need magnitudes between \<open>2^-32\<close> and \<open>100\<close>).
  \<^verbatim>\<open>Math.round\<close> returns the nearest integer, a tie going towards plus infinity.
\<close>

definition round_even :: "rat \<Rightarrow> int" where
  "round_even x =
     (let f = \<lfloor>x\<rfloor>; r = x - of_int f
      in if r < 1 / 2 then f else if 1 / 2 < r then f + 1 else if even f then f else f + 1)"

text \<open>The binary exponent of a positive rational: \<open>2 powi e \<le> x < 2 powi (e + 1)\<close>.\<close>

definition ilog2 :: "rat \<Rightarrow> int" where
  "ilog2 x =
     (case quotient_of x of (a, b) \<Rightarrow>
        (let k = bitlen a - bitlen b in if 2 powi k \<le> x then k else k - 1))"

definition binary64 :: "rat \<Rightarrow> rat" where
  "binary64 x =
     (if x = 0 then 0
      else (let ulp = 2 powi (ilog2 \<bar>x\<bar> - 52) in of_int (round_even (x / ulp)) * ulp))"

definition js_div :: "rat \<Rightarrow> rat \<Rightarrow> rat" where
  "js_div x y = binary64 (x / y)"

definition js_mul :: "rat \<Rightarrow> rat \<Rightarrow> rat" where
  "js_mul x y = binary64 (x * y)"

definition Math_round :: "rat \<Rightarrow> int" where
  "Math_round x = \<lfloor>x + 1 / 2\<rfloor>"

text \<open>
  \<^verbatim>\<open>total > 0 ? Math.round((passed.length / total) * 100) : 100\<close>, the expression
  shared by \<^verbatim>\<open>scanDocument\<close> and \<^verbatim>\<open>scanMultipleUrls\<close>; \<open>total\<close> is
  \<^verbatim>\<open>violations.length + passed.length\<close>.
\<close>

definition compliance_score :: "nat \<Rightarrow> nat \<Rightarrow> int" where
  "compliance_score nviolations npassed =
     (let total = nviolations + npassed
      in if total > 0 then Math_round (js_mul (js_div (of_nat npassed) (of_nat total)) 100)
         else 100)"

section \<open>Rule engine: data model\<close>

text \<open>
  What a rule predicate hands back. The catalogue's predicates return booleans, but the
  scanner only looks at truthiness (first and third version) or at \<^verbatim>\<open>typeof\<close> and the
  \<^verbatim>\<open>passed\<close>, \<^verbatim>\<open>reason\<close>, \<^verbatim>\<open>howToFix\<close> properties (second version), so a value is
  kept as far as those can tell: \<open>JPrimitive b\<close> is a number or string of truthiness \<open>b\<close>,
  \<open>JObject p r f\<close> an object whose \<^verbatim>\<open>passed\<close> property has truthiness \<open>p\<close>.
\<close>

datatype js_value =
    JUndefined
  | JNull
  | JBool bool
  | JPrimitive bool
  | JObject bool "string option" "string option"

text \<open>A call either returns or throws; \<open>Throws m\<close> carries \<^verbatim>\<open>e.message\<close>.\<close>

datatype 'a outcome = Returns 'a | Throws string

datatype js_error = TypeError string | ReferenceError string | Error string

fun message :: "js_error \<Rightarrow> string" where
  "message (TypeError m) = m"
| "message (ReferenceError m) = m"
| "message (Error m) = m"

fun truthy :: "js_value \<Rightarrow> bool" where
  "truthy JUndefined = False"
| "truthy JNull = False"
| "truthy (JBool b) = b"
| "truthy (JPrimitive b) = b"
| "truthy (JObject p r f) = True"

text \<open>\<^verbatim>\<open>typeof checkResult === 'boolean' ? checkResult : checkResult?.passed\<close>, as a truth value.\<close>

fun result_passed :: "js_value \<Rightarrow> bool" where
  "result_passed (JBool b) = b"
| "result_passed (JObject p r f) = p"
| "result_passed v = False"

text \<open>\<^verbatim>\<open>typeof checkResult === 'object'\<close>: objects, and \<^verbatim>\<open>null\<close>.\<close>

fun is_object :: "js_value \<Rightarrow> bool" where
  "is_object JNull = True"
| "is_object (JObject p r f) = True"
| "is_object v = False"

text \<open>\<^verbatim>\<open>a || b\<close> on strings that may be null or undefined: the empty string is falsy too.\<close>

fun truthy_str :: "string option \<Rightarrow> bool" where
  "truthy_str None = False"
| "truthy_str (Some s) = (s \<noteq> [])"

fun or_else :: "string option \<Rightarrow> string \<Rightarrow> string" where
  "or_else None d = d"
| "or_else (Some s) d = (if s = [] then d else s)"

fun or_opt :: "string option \<Rightarrow> string option \<Rightarrow> string option" where
  "or_opt None b = b"
| "or_opt (Some s) b = (if s = [] then b else Some s)"

text \<open>The parsed document, with the \<^verbatim>\<open>_url\<close> annotation the scanner attaches to it.\<close>

record 'd document =
  dom :: 'd
  doc_url :: "string option"

record ('d, 'e) rule =
  r_id :: string
  r_category :: string
  r_description :: string
  r_requirements :: "string list"
  r_type :: string
  r_severity :: string
  globalCheck :: "('d document \<Rightarrow> js_value outcome) option"
  selector :: "string option"
  check :: "('e \<Rightarrow> js_value outcome) option"

record violation =
  v_id :: string
  v_description :: string
  v_severity :: string
  v_category :: string
  v_type :: string
  v_requirements :: "string list"
  v_pageUrl :: string
  v_preview :: "string option"
  v_violationReason :: "string option"
  v_howToFix :: "string option"

record deduped_violation = violation +
  affectedPages :: "string list"
  occurrences :: nat

record passed_check =
  p_id :: string
  p_description :: string
  p_severity :: string
  p_category :: string
  p_type :: string
  p_pageUrl :: "string option"

record 'v scored =
  score :: int
  violations :: "'v list"
  passed :: "passed_check list"
  totalChecks :: nat

record page_report = "violation scored" +
  pageUrl :: string
  error :: "string option"

record page_summary =
  s_url :: string
  s_error :: "string option"
  s_score :: int
  violationCount :: nat
  passedCount :: nat

record aggregate_report = "deduped_violation scored" +
  status :: string
  pageResults :: "page_summary list"
  totalPages :: nat
  pagesWithViolations :: nat
  totalViolationsBeforeDedup :: nat

text \<open>
  What the scanner takes from its surroundings: the catalogue \<^verbatim>\<open>dgaRules\<close>, the DOM
  queries it makes, and \<^verbatim>\<open>window.location.href\<close> (\<open>None\<close> where there is no
  \<^verbatim>\<open>window\<close>). The selectors of the catalogue are constants, so \<^verbatim>\<open>querySelectorAll\<close>
  is taken to return its matches.
\<close>

record ('d, 'e) scan_env =
  dgaRules :: "('d, 'e) rule list"
  querySelectorAll :: "'d \<Rightarrow> string \<Rightarrow> 'e list"
  outerHTML :: "'e \<Rightarrow> string"
  documentElement :: "'d \<Rightarrow> 'e option"
  window_href :: "string option"

definition passed_entry :: "('d, 'e) rule \<Rightarrow> passed_check" where
  "passed_entry r =
     \<lparr>p_id = r_id r, p_description = r_description r, p_severity = r_severity r,
      p_category = r_category r, p_type = r_type r, p_pageUrl = None\<rparr>"

definition violation_entry ::
  "('d, 'e) rule \<Rightarrow> string \<Rightarrow> string option \<Rightarrow> string option \<Rightarrow> string option \<Rightarrow> violation" where
  "violation_entry r url preview reason fix =
     \<lparr>v_id = r_id r, v_description = r_description r, v_severity = r_severity r,
      v_category = r_category r, v_type = r_type r, v_requirements = r_requirements r,
      v_pageUrl = url, v_preview = preview, v_violationReason = reason, v_howToFix = fix\<rparr>"

text \<open>
  \<^verbatim>\<open>doc.documentElement ? doc.documentElement.outerHTML.substring(0, 1000)
  : 'Document Structure Missing'\<close>
\<close>

definition document_preview :: "('d, 'e) scan_env \<Rightarrow> 'd \<Rightarrow> string" where
  "document_preview env d =
     (case documentElement env d of
        Some el \<Rightarrow> take 1000 (outerHTML env el)
      | None \<Rightarrow> ''Document Structure Missing'')"

text \<open>What one rule contributes to the two lists of a scan.\<close>

datatype verdict = Skipped | Passed passed_check | Violated violation

text \<open>
  \<^verbatim>\<open>dgaRules.forEach(rule => { ... })\<close>: the rules in catalogue order, each pushing at
  most one entry on \<^verbatim>\<open>violations\<close> or \<^verbatim>\<open>passed\<close>. An exception that leaves the
  callback ends the loop and the scan.
\<close>

fun run_rules ::
  "(('d, 'e) rule \<Rightarrow> js_error + verdict) \<Rightarrow> ('d, 'e) rule list \<Rightarrow>
   violation list \<times> passed_check list \<Rightarrow> js_error + violation list \<times> passed_check list" where
  "run_rules ev [] acc = Inr acc"
| "run_rules ev (r # rs) (vs, ps) =
     (case ev r of
        Inl e \<Rightarrow> Inl e
      | Inr Skipped \<Rightarrow> run_rules ev rs (vs, ps)
      | Inr (Passed p) \<Rightarrow> run_rules ev rs (vs, ps @ [p])
      | Inr (Violated v) \<Rightarrow> run_rules ev rs (vs @ [v], ps))"

definition make_report :: "violation list \<Rightarrow> passed_check list \<Rightarrow> string \<Rightarrow> page_report" where
  "make_report vs ps url =
     \<lparr>score = compliance_score (length vs) (length ps), violations = vs, passed = ps,
      totalChecks = length vs + length ps, pageUrl = url, error = None\<rparr>"

section \<open>scanDocument, first version (dgaScanner.js, first text)\<close>

text \<open>
  No \<^verbatim>\<open>try\<close> anywhere: a predicate that throws ends the scan. The page URL is
  \<^verbatim>\<open>pageUrl || window.location.href\<close>, a ReferenceError where there is no window.
  The document is annotated with \<^verbatim>\<open>_url\<close> only after the rules have run, so the
  predicates see it as it was passed in.
\<close>

definition page_url_v1 :: "('d, 'e) scan_env \<Rightarrow> string option \<Rightarrow> js_error + string" where
  "page_url_v1 env purl =
     (if truthy_str purl then Inr (or_else purl [])
      else (case window_href env of
              None \<Rightarrow> Inl (ReferenceError ''window is not defined'')
            | Some h \<Rightarrow> Inr h))"

fun check_elements_v1 ::
  "('d, 'e) scan_env \<Rightarrow> ('e \<Rightarrow> js_value outcome) \<Rightarrow> 'e list \<Rightarrow> bool \<times> string option \<Rightarrow>
   js_error + bool \<times> string option" where
  "check_elements_v1 env chk [] st = Inr st"
| "check_elements_v1 env chk (el # els) (allPass, preview) =
     (case chk el of
        Throws m \<Rightarrow> Inl (Error m)
      | Returns v \<Rightarrow>
          (if \<not> truthy v
           then check_elements_v1 env chk els
                  (False, if \<not> truthy_str preview then Some (take 1000 (outerHTML env el)) else preview)
           else check_elements_v1 env chk els (allPass, preview)))"

definition eval_rule_v1 ::
  "('d, 'e) scan_env \<Rightarrow> 'd document \<Rightarrow> string option \<Rightarrow> ('d, 'e) rule \<Rightarrow> js_error + verdict" where
  "eval_rule_v1 env doc purl r =
     (if r_type r = ''manual'' then Inr Skipped
      else (case globalCheck r of
        Some gc \<Rightarrow>
          (case gc doc of
             Throws m \<Rightarrow> Inl (Error m)
           | Returns v \<Rightarrow>
               (if \<not> truthy v
                then (case page_url_v1 env purl of
                        Inl e \<Rightarrow> Inl e
                      | Inr u \<Rightarrow> Inr (Violated (violation_entry r u
                                   (Some (document_preview env (dom doc))) None None)))
                else Inr (Passed (passed_entry r))))
      | None \<Rightarrow>
          (case (selector r, check r) of
             (Some s, Some chk) \<Rightarrow>
               (if s = [] then Inr Skipped
                else (case check_elements_v1 env chk (querySelectorAll env (dom doc) s) (True, None) of
                        Inl e \<Rightarrow> Inl e
                      | Inr (allPass, preview) \<Rightarrow>
                          (if \<not> allPass
                           then (case page_url_v1 env purl of
                                   Inl e \<Rightarrow> Inl e
                                 | Inr u \<Rightarrow> Inr (Violated (violation_entry r u preview None None)))
                           else Inr (Passed (passed_entry r)))))
           | _ \<Rightarrow> Inr Skipped)))"

definition scanDocument_v1 ::
  "('d, 'e) scan_env \<Rightarrow> 'd document \<Rightarrow> string option \<Rightarrow> js_error + page_report" where
  "scanDocument_v1 env doc purl =
     (case run_rules (eval_rule_v1 env doc purl) (dgaRules env) ([], []) of
        Inl e \<Rightarrow> Inl e
      | Inr (vs, ps) \<Rightarrow>
          (case page_url_v1 env purl of
             Inl e \<Rightarrow> Inl e
           | Inr u \<Rightarrow> Inr (make_report vs ps u)))"

section \<open>scanDocument, second version (dgaScanner.js, second text)\<close>

text \<open>
  The document is annotated first. Each global check runs inside one \<^verbatim>\<open>try\<close> together
  with the push of its result; each element check runs inside its own \<^verbatim>\<open>try\<close>.
  Predicates may return a boolean or an object \<^verbatim>\<open>{passed, reason, howToFix}\<close>.
  A thrown value is taken to be an Error object, so that \<^verbatim>\<open>e.message\<close> can be read.
\<close>

definition tag_document :: "'d document \<Rightarrow> string option \<Rightarrow> 'd document" where
  "tag_document doc purl = (if truthy_str purl then doc\<lparr>doc_url := purl\<rparr> else doc)"

text \<open>\<^verbatim>\<open>pageUrl || (typeof window !== 'undefined' && window.location.href) || ''\<close>\<close>

definition page_url_of :: "('d, 'e) scan_env \<Rightarrow> string option \<Rightarrow> string" where
  "page_url_of env purl = or_else purl (or_else (window_href env) [])"

fun reason_of :: "js_value \<Rightarrow> string option" where
  "reason_of (JObject p r f) = r"
| "reason_of v = None"

fun howToFix_of :: "js_value \<Rightarrow> string option" where
  "howToFix_of (JObject p r f) = f"
| "howToFix_of v = None"

text \<open>The message of the TypeError raised by reading \<^verbatim>\<open>.reason\<close> of \<^verbatim>\<open>null\<close>.\<close>

definition null_reason_message :: string where
  "null_reason_message = ''Cannot read properties of null (reading 'reason')''"

definition check_error_violation ::
  "('d, 'e) scan_env \<Rightarrow> string option \<Rightarrow> ('d, 'e) rule \<Rightarrow> string \<Rightarrow> violation" where
  "check_error_violation env purl r m =
     violation_entry r (page_url_of env purl)
       (Some (''Error during check: '' @ m))
       (Some (''Check failed with error: '' @ m))
       (Some ''Review rule implementation and ensure proper DOM structure'')"

definition default_fix :: string where
  "default_fix = ''Review requirements and update implementation to match DGA standards''"

definition global_verdict_v2 ::
  "('d, 'e) scan_env \<Rightarrow> 'd document \<Rightarrow> string option \<Rightarrow> ('d, 'e) rule \<Rightarrow>
   ('d document \<Rightarrow> js_value outcome) \<Rightarrow> verdict" where
  "global_verdict_v2 env doc purl r gc =
     (case gc doc of
        Throws m \<Rightarrow> Violated (check_error_violation env purl r m)
      | Returns v \<Rightarrow>
          (if result_passed v then Passed (passed_entry r)
           else if v = JNull then Violated (check_error_violation env purl r null_reason_message)
           else Violated (violation_entry r (page_url_of env purl)
                  (Some (document_preview env (dom doc)))
                  (Some (or_else (reason_of v) (''Rule #'' @ r_id r @ '' global check failed'')))
                  (Some (or_else (howToFix_of v) default_fix)))))"

text \<open>
  The loop state is \<open>(allPass, preview, violationReason, howToFix)\<close>. For a \<^verbatim>\<open>null\<close>
  result, reading \<^verbatim>\<open>checkResult.reason\<close> may throw into the \<^verbatim>\<open>catch\<close>, which sets
  \<^verbatim>\<open>allPass\<close> to false again and changes nothing else.
\<close>

fun element_step_v2 ::
  "('d, 'e) scan_env \<Rightarrow> ('e \<Rightarrow> js_value outcome) \<Rightarrow>
   bool \<times> string option \<times> string option \<times> string option \<Rightarrow> 'e \<Rightarrow>
   bool \<times> string option \<times> string option \<times> string option" where
  "element_step_v2 env chk (allPass, preview, reason, fix) el =
     (case chk el of
        Throws m \<Rightarrow> (False, preview, reason, fix)
      | Returns v \<Rightarrow>
          (if result_passed v then (allPass, preview, reason, fix)
           else (let preview' = (if \<not> truthy_str preview then Some (take 1000 (outerHTML env el))
                                 else preview)
                 in if is_object v \<and> v \<noteq> JNull
                    then (False, preview', or_opt reason (reason_of v), or_opt fix (howToFix_of v))
                    else (False, preview', reason, fix))))"

definition selector_verdict_v2 ::
  "('d, 'e) scan_env \<Rightarrow> 'd document \<Rightarrow> string option \<Rightarrow> ('d, 'e) rule \<Rightarrow> string \<Rightarrow>
   ('e \<Rightarrow> js_value outcome) \<Rightarrow> verdict" where
  "selector_verdict_v2 env doc purl r s chk =
     (let elements = querySelectorAll env (dom doc) s;
          (allPass, preview, reason, fix) =
            (if length elements > 0
             then foldl (element_step_v2 env chk) (True, None, None, None) elements
             else (True, None, None, None))
      in if \<not> allPass
         then Violated (violation_entry r (page_url_of env purl) preview
                (Some (or_else reason (''Rule #'' @ r_id r @ '' check failed'')))
                (Some (or_else fix default_fix)))
         else Passed (passed_entry r))"

definition eval_rule_v2 ::
  "('d, 'e) scan_env \<Rightarrow> 'd document \<Rightarrow> string option \<Rightarrow> ('d, 'e) rule \<Rightarrow> verdict" where
  "eval_rule_v2 env doc purl r =
     (if r_type r = ''manual'' then Skipped
      else (case globalCheck r of
        Some gc \<Rightarrow> global_verdict_v2 env doc purl r gc
      | None \<Rightarrow>
          (case (selector r, check r) of
             (Some s, Some chk) \<Rightarrow>
               (if s = [] then Skipped else selector_verdict_v2 env doc purl r s chk)
           | _ \<Rightarrow> Skipped)))"

definition scanDocument_v2 ::
  "('d, 'e) scan_env \<Rightarrow> 'd document \<Rightarrow> string option \<Rightarrow> js_error + page_report" where
  "scanDocument_v2 env doc purl =
     (case run_rules (\<lambda>r. Inr (eval_rule_v2 env (tag_document doc purl) purl r))
             (dgaRules env) ([], []) of
        Inl e \<Rightarrow> Inl e
      | Inr (vs, ps) \<Rightarrow> Inr (make_report vs ps (page_url_of env purl)))"

section \<open>scanDocument, third version (the scanner text stored with dgaRules.js)\<close>

text \<open>
  As the second version, but a predicate's result is read by truthiness, only the call of
  the global check is inside the \<^verbatim>\<open>try\<close>, and a violation carries no reason.
\<close>

definition global_verdict_v3 ::
  "('d, 'e) scan_env \<Rightarrow> 'd document \<Rightarrow> string option \<Rightarrow> ('d, 'e) rule \<Rightarrow>
   ('d document \<Rightarrow> js_value outcome) \<Rightarrow> verdict" where
  "global_verdict_v3 env doc purl r gc =
     (let result = (case gc doc of Throws m \<Rightarrow> False | Returns v \<Rightarrow> truthy v)
      in if \<not> result
         then Violated (violation_entry r (page_url_of env purl)
                (Some (document_preview env (dom doc))) None None)
         else Passed (passed_entry r))"

fun element_step_v3 ::
  "('d, 'e) scan_env \<Rightarrow> ('e \<Rightarrow> js_value outcome) \<Rightarrow> bool \<times> string option \<Rightarrow> 'e \<Rightarrow>
   bool \<times> string option" where
  "element_step_v3 env chk (allPass, preview) el =
     (case chk el of
        Throws m \<Rightarrow> (False, preview)
      | Returns v \<Rightarrow>
          (if \<not> truthy v
           then (False, if \<not> truthy_str preview then Some (take 1000 (outerHTML env el)) else preview)
           else (allPass, preview)))"

definition selector_verdict_v3 ::
  "('d, 'e) scan_env \<Rightarrow> 'd document \<Rightarrow> string option \<Rightarrow> ('d, 'e) rule \<Rightarrow> string \<Rightarrow>
   ('e \<Rightarrow> js_value outcome) \<Rightarrow> verdict" where
  "selector_verdict_v3 env doc purl r s chk =
     (let elements = querySelectorAll env (dom doc) s;
          (allPass, preview) =
            (if length elements > 0
             then foldl (element_step_v3 env chk) (True, None) elements
             else (True, None))
      in if \<not> allPass
         then Violated (violation_entry r (page_url_of env purl) preview None None)
         else Passed (passed_entry r))"

definition eval_rule_v3 ::
  "('d, 'e) scan_env \<Rightarrow> 'd document \<Rightarrow> string option \<Rightarrow> ('d, 'e) rule \<Rightarrow> verdict" where
  "eval_rule_v3 env doc purl r =
     (if r_type r = ''manual'' then Skipped
      else (case globalCheck r of
        Some gc \<Rightarrow> global_verdict_v3 env doc purl r gc
      | None \<Rightarrow>
          (case (selector r, check r) of
             (Some s, Some chk) \<Rightarrow>
               (if s = [] then Skipped else selector_verdict_v3 env doc purl r s chk)
           | _ \<Rightarrow> Skipped)))"

definition scanDocument_v3 ::
  "('d, 'e) scan_env \<Rightarrow> 'd document \<Rightarrow> string option \<Rightarrow> js_error + page_report" where
  "scanDocument_v3 env doc purl =
     (case run_rules (\<lambda>r. Inr (eval_rule_v3 env (tag_document doc purl) purl r))
             (dgaRules env) ([], []) of
        Inl e \<Rightarrow> Inl e
      | Inr (vs, ps) \<Rightarrow> Inr (make_report vs ps (page_url_of env purl)))"

section \<open>scanUrl\<close>

text \<open>
  A URL object as far as the code reads it. \<^verbatim>\<open>toString()\<close> is everything before the
  path, then the path, the query and the fragment. \<^verbatim>\<open>new URL(s)\<close> and
  \<^verbatim>\<open>new URL(s, base)\<close> throw a TypeError on a string that does not parse.
\<close>

record url =
  origin :: string
  href_prefix :: string
  pathname :: string
  search :: string
  hash :: string

definition toString :: "url \<Rightarrow> string" where
  "toString u = href_prefix u @ pathname u @ search u @ hash u"

text \<open>
  The network. \<^verbatim>\<open>fetch\<close> is keyed by the page URL (the request goes to the URL itself
  or to \<^verbatim>\<open>/api/proxy?url=..\<close>, which is a function of it) and either rejects or gives a
  response with its \<^verbatim>\<open>ok\<close> flag and its body; the body is kept as what the HTML parser
  makes of it, \<open>Throws\<close> where no parser is available.
\<close>

datatype 'b fetch_result = Rejected string | Response bool "'b outcome"

record 'b net_env =
  new_URL :: "string \<Rightarrow> url outcome"
  new_URL_base :: "string \<Rightarrow> string \<Rightarrow> url outcome"
  fetch :: "string \<Rightarrow> 'b fetch_result"

text \<open>The object built in the \<^verbatim>\<open>catch\<close> of \<^verbatim>\<open>scanUrl\<close>.\<close>

definition error_report :: "string \<Rightarrow> string \<Rightarrow> page_report" where
  "error_report m u =
     \<lparr>score = 0, violations = [], passed = [], totalChecks = 0, pageUrl = u, error = Some m\<rparr>"

text \<open>
  The body of \<^verbatim>\<open>scanUrl\<close> is one \<^verbatim>\<open>try\<close> whose \<^verbatim>\<open>catch\<close> returns the error report,
  so the promise always resolves. The three texts differ in the scanDocument they call and
  in how they get a parser; \<open>scanUrl_with\<close> is what they share, \<open>parser_error\<close> the message
  when no parser is available.
\<close>

definition scanUrl_with ::
  "('d document \<Rightarrow> string option \<Rightarrow> js_error + page_report) \<Rightarrow> (string \<Rightarrow> string) \<Rightarrow>
   'd net_env \<Rightarrow> string \<Rightarrow> js_error + page_report" where
  "scanUrl_with scanDocument parser_error net u =
     (case new_URL net u of
        Throws m \<Rightarrow> Inr (error_report m u)
      | Returns urlObj \<Rightarrow>
          (case fetch net u of
             Rejected m \<Rightarrow> Inr (error_report m u)
           | Response ok body \<Rightarrow>
               (if \<not> ok then Inr (error_report ''Failed to fetch the URL'' u)
                else (case body of
                        Throws m \<Rightarrow> Inr (error_report (parser_error m) u)
                      | Returns d \<Rightarrow>
                          (case scanDocument \<lparr>dom = d, doc_url = None\<rparr> (Some u) of
                             Inl e \<Rightarrow> Inr (error_report (message e) u)
                           | Inr result \<Rightarrow> Inr result)))))"

definition scanUrl_v1 ::
  "('d, 'e) scan_env \<Rightarrow> 'd net_env \<Rightarrow> string \<Rightarrow> js_error + page_report" where
  "scanUrl_v1 env = scanUrl_with (scanDocument_v1 env) (\<lambda>m. m)"

definition scanUrl_v2 ::
  "('d, 'e) scan_env \<Rightarrow> 'd net_env \<Rightarrow> string \<Rightarrow> js_error + page_report" where
  "scanUrl_v2 env =
     scanUrl_with (scanDocument_v2 env) (\<lambda>m. ''DOMParser not available and JSDOM failed'')"

definition scanUrl_v3 ::
  "('d, 'e) scan_env \<Rightarrow> 'd net_env \<Rightarrow> string \<Rightarrow> js_error + page_report" where
  "scanUrl_v3 env = scanUrl_with (scanDocument_v3 env) (\<lambda>m. m)"

section \<open>scanMultipleUrls\<close>

text \<open>
  The text of \<^verbatim>\<open>scanMultipleUrls\<close> is the same in the three files; \<open>scan\<close> stands for the
  \<^verbatim>\<open>scanUrl\<close> of the file. The loop state is \<open>(allViolations, allPassed, pageResults)\<close>.
  The progress callbacks and the timestamp are left out.
\<close>

fun page_step ::
  "(string \<Rightarrow> js_error + page_report) \<Rightarrow>
   violation list \<times> passed_check list \<times> page_summary list \<Rightarrow> string \<Rightarrow>
   violation list \<times> passed_check list \<times> page_summary list" where
  "page_step scan (allViolations, allPassed, pages) u =
     (case scan u of
        Inr result \<Rightarrow>
          (allViolations @ map (\<lambda>v. v\<lparr>v_pageUrl := u\<rparr>) (violations result),
           allPassed @ map (\<lambda>p. p\<lparr>p_pageUrl := Some u\<rparr>) (passed result),
           pages @ [\<lparr>s_url = u, s_error = None, s_score = score result,
                     violationCount = length (violations result),
                     passedCount = length (passed result)\<rparr>])
      | Inl e \<Rightarrow>
          (allViolations, allPassed,
           pages @ [\<lparr>s_url = u, s_error = Some (message e), s_score = 0,
                     violationCount = 0, passedCount = 0\<rparr>]))"

definition scan_pages ::
  "(string \<Rightarrow> js_error + page_report) \<Rightarrow> string list \<Rightarrow>
   violation list \<times> passed_check list \<times> page_summary list" where
  "scan_pages scan urls = foldl (page_step scan) ([], [], []) urls"

definition overall_status :: "nat \<Rightarrow> nat \<Rightarrow> string" where
  "overall_status nviolations npassed =
     (if nviolations > 0
      then (if nviolations > npassed then ''Non-Compliant'' else ''Partially Compliant'')
      else ''Compliant'')"

text \<open>
  \<^verbatim>\<open>violationMap\<close> is a JavaScript Map, which keeps its keys in insertion order: an
  association list, a new key going to the end and a known key being updated in place.
\<close>

definition dedup_key :: "'a violation_scheme \<Rightarrow> string" where
  "dedup_key v = v_id v @ ''-'' @ v_description v"

definition dedup_step ::
  "(string \<times> deduped_violation) list \<Rightarrow> violation \<Rightarrow> (string \<times> deduped_violation) list" where
  "dedup_step violationMap v =
     (let key = dedup_key v
      in case map_of violationMap key of
           None \<Rightarrow>
             AList.update key
               (violation.extend v (deduped_violation.fields [v_pageUrl v] 1)) violationMap
         | Some existing \<Rightarrow>
             (if v_pageUrl v \<notin> set (affectedPages existing)
              then AList.update key
                     (existing\<lparr>affectedPages := affectedPages existing @ [v_pageUrl v],
                               occurrences := occurrences existing + 1\<rparr>) violationMap
              else violationMap))"

definition dedup :: "violation list \<Rightarrow> deduped_violation list" where
  "dedup allViolations = map snd (foldl dedup_step [] allViolations)"

definition scanMultipleUrls ::
  "(string \<Rightarrow> js_error + page_report) \<Rightarrow> string list \<Rightarrow> aggregate_report" where
  "scanMultipleUrls scan urls =
     (case scan_pages scan urls of
        (allViolations, allPassed, pages) \<Rightarrow>
          \<lparr>score = compliance_score (length allViolations) (length allPassed),
           violations = dedup allViolations,
           passed = allPassed,
           totalChecks = length allViolations + length allPassed,
           status = overall_status (length allViolations) (length allPassed),
           pageResults = pages,
           totalPages = length urls,
           pagesWithViolations = length (filter (\<lambda>p. violationCount p > 0) pages),
           totalViolationsBeforeDedup = length allViolations\<rparr>)"

section \<open>Crawler: link extraction\<close>

text \<open>
  Strings are byte strings here; \<^verbatim>\<open>trim\<close> and \<^verbatim>\<open>toLowerCase\<close> are modelled on ASCII,
  which is what a serialised URL consists of.
\<close>

definition startsWith :: "string \<Rightarrow> string \<Rightarrow> bool" where
  "startsWith s p = (take (length p) s = p)"

definition endsWith :: "string \<Rightarrow> string \<Rightarrow> bool" where
  "endsWith s e = (length e \<le> length s \<and> drop (length s - length e) s = e)"

definition lower_char :: "char \<Rightarrow> char" where
  "lower_char c =
     (let n = (of_char c :: nat) in if 65 \<le> n \<and> n \<le> 90 then char_of (n + 32) else c)"

definition toLowerCase :: "string \<Rightarrow> string" where
  "toLowerCase s = map lower_char s"

definition is_space :: "char \<Rightarrow> bool" where
  "is_space c = ((of_char c :: nat) \<in> {9, 10, 11, 12, 13, 32})"

definition trim :: "string \<Rightarrow> string" where
  "trim s = rev (dropWhile is_space (rev (dropWhile is_space s)))"

text \<open>\<^verbatim>\<open>href.replace(/['"]/g, '').trim()\<close>\<close>

definition clean_href :: "string \<Rightarrow> string" where
  "clean_href h = trim (filter (\<lambda>c. c \<noteq> CHR 0x27 \<and> c \<noteq> CHR 0x22) h)"

definition nonPageExtensions :: "string list" where
  "nonPageExtensions =
     [''.jpg'', ''.jpeg'', ''.png'', ''.gif'', ''.svg'', ''.webp'',
      ''.pdf'', ''.doc'', ''.docx'', ''.xls'', ''.xlsx'',
      ''.zip'', ''.tar'', ''.gz'',
      ''.mp3'', ''.mp4'', ''.avi'', ''.mov'',
      ''.css'', ''.js'', ''.json'', ''.xml'']"

definition isNonPageResource :: "string \<Rightarrow> bool" where
  "isNonPageResource u = list_ex (\<lambda>ext. endsWith (toLowerCase u) ext) nonPageExtensions"

text \<open>A JavaScript Set keeps insertion order: \<^verbatim>\<open>add\<close> appends a value that is not there.\<close>

definition set_add :: "'a \<Rightarrow> 'a list \<Rightarrow> 'a list" where
  "set_add x xs = (if x \<in> set xs then xs else xs @ [x])"

text \<open>
  The callback of \<^verbatim>\<open>anchors.forEach\<close>, as the link it adds, if any. The argument is the
  value of the anchor's \<^verbatim>\<open>href\<close> attribute. A TypeError of \<^verbatim>\<open>new URL(href, currentUrl)\<close>
  is swallowed by the \<^verbatim>\<open>catch\<close> of the callback.
\<close>

definition link_of :: "'b net_env \<Rightarrow> string \<Rightarrow> string \<Rightarrow> string \<Rightarrow> string option" where
  "link_of net currentUrl baseOrigin attr =
     (if attr = [] then None
      else (let href = clean_href attr
            in if href = [] \<or> startsWith href ''mailto:'' \<or> startsWith href ''tel:'' \<or>
                  startsWith href ''javascript:'' \<or> href = ''#''
               then None
               else (case new_URL_base net href currentUrl of
                       Throws m \<Rightarrow> None
                     | Returns absoluteUrl \<Rightarrow>
                         (if origin absoluteUrl \<noteq> baseOrigin then None
                          else (let normalizedUrl = toString (absoluteUrl\<lparr>hash := []\<rparr>)
                                in if isNonPageResource normalizedUrl then None
                                   else Some normalizedUrl)))))"

text \<open>
  \<^verbatim>\<open>extractLinks\<close>; the parsed page is given by the \<^verbatim>\<open>href\<close> values of its
  \<^verbatim>\<open>a[href]\<close> elements, in document order.
\<close>

definition extractLinks :: "'b net_env \<Rightarrow> string list \<Rightarrow> string \<Rightarrow> string \<Rightarrow> string list" where
  "extractLinks net anchors currentUrl baseOrigin =
     foldl (\<lambda>links attr. case link_of net currentUrl baseOrigin attr of
                            None \<Rightarrow> links
                          | Some l \<Rightarrow> set_add l links) [] anchors"

section \<open>Crawler: the walk\<close>

text \<open>
  \<open>visits\<close> is not a variable of the source: it lists the queue entries that got past the
  skip test, in order, each with the depth it was enqueued at. Those are the entries whose
  URL is put into \<^verbatim>\<open>visitedUrls\<close>, announced to \<^verbatim>\<open>onProgress\<close> and fetched.
\<close>

record crawl_state =
  discoveredUrls :: "string list"
  visitedUrls :: "string list"
  queue :: "(string \<times> nat) list"
  visits :: "(string \<times> nat) list"

definition crawl_cond :: "int \<Rightarrow> crawl_state \<Rightarrow> bool" where
  "crawl_cond maxPages s = (length (queue s) > 0 \<and> int (length (discoveredUrls s)) < maxPages)"

text \<open>The \<^verbatim>\<open>for (const link of links)\<close> loop.\<close>

definition add_link :: "int \<Rightarrow> nat \<Rightarrow> crawl_state \<Rightarrow> string \<Rightarrow> crawl_state" where
  "add_link maxPages depth s link =
     (if link \<notin> set (discoveredUrls s) \<and> int (length (discoveredUrls s)) < maxPages
      then s\<lparr>discoveredUrls := discoveredUrls s @ [link], queue := queue s @ [(link, depth + 1)]\<rparr>
      else s)"

definition add_links :: "int \<Rightarrow> nat \<Rightarrow> string list \<Rightarrow> crawl_state \<Rightarrow> crawl_state" where
  "add_links maxPages depth links s = foldl (add_link maxPages depth) s links"

text \<open>
  One run of the body of the \<^verbatim>\<open>while\<close> loop. Whatever is thrown inside the \<^verbatim>\<open>try\<close>
  (a rejected fetch, a missing parser) is logged and the loop goes on, as for a response
  that is not \<^verbatim>\<open>ok\<close>.
\<close>

definition crawl_iter ::
  "string list net_env \<Rightarrow> string \<Rightarrow> int \<Rightarrow> int \<Rightarrow> crawl_state \<Rightarrow> crawl_state" where
  "crawl_iter net baseOrigin maxPages maxDepth s =
     (case queue s of
        [] \<Rightarrow> s
      | (u, depth) # rest \<Rightarrow>
          (let s1 = s\<lparr>queue := rest\<rparr>
           in if u \<in> set (visitedUrls s1) \<or> int depth > maxDepth then s1
              else (let s2 = s1\<lparr>visitedUrls := visitedUrls s1 @ [u],
                                 visits := visits s1 @ [(u, depth)]\<rparr>
                    in case new_URL net u of
                         Throws m \<Rightarrow> s2
                       | Returns urlObj \<Rightarrow>
                           (case fetch net u of
                              Rejected m \<Rightarrow> s2
                            | Response ok body \<Rightarrow>
                                (if \<not> ok then s2
                                 else (case body of
                                         Throws m \<Rightarrow> s2
                                       | Returns anchors \<Rightarrow>
                                           add_links maxPages depth
                                             (extractLinks net anchors u baseOrigin) s2))))))"

text \<open>
  What is left of the page budget plus the length of the queue: every run of the loop body
  takes one entry off the queue, and each link it appends uses up one page of the budget.
\<close>

definition crawl_measure :: "int \<Rightarrow> crawl_state \<Rightarrow> nat" where
  "crawl_measure maxPages s = length (queue s) + nat (maxPages - int (length (discoveredUrls s)))"

function crawl_loop ::
  "string list net_env \<Rightarrow> string \<Rightarrow> int \<Rightarrow> int \<Rightarrow> crawl_state \<Rightarrow> crawl_state" where
  "crawl_loop net baseOrigin maxPages maxDepth s =
     (if crawl_cond maxPages s
      then crawl_loop net baseOrigin maxPages maxDepth (crawl_iter net baseOrigin maxPages maxDepth s)
      else s)"
  by pat_completeness auto
termination
proof (relation "measure (\<lambda>(net, baseOrigin, maxPages, maxDepth, s). crawl_measure maxPages s)")
  show "wf (measure (\<lambda>(net, baseOrigin, maxPages, maxDepth, s). crawl_measure maxPages s))"
    by simp
next
  fix net :: "string list net_env" and baseOrigin :: string and maxPages maxDepth :: int
    and s :: crawl_state
  assume c: "crawl_cond maxPages s"
  have link: "crawl_measure maxPages (add_link maxPages d t l) = crawl_measure maxPages t"
    for d t l
    by (auto simp: add_link_def crawl_measure_def)
  have links: "crawl_measure maxPages (add_links maxPages d ls t) = crawl_measure maxPages t"
    for d ls t
    unfolding add_links_def by (induction ls arbitrary: t) (simp_all add: link)
  from c obtain u depth rest where q: "queue s = (u, depth) # rest"
    by (cases "queue s") (auto simp: crawl_cond_def)
  have "crawl_measure maxPages (crawl_iter net baseOrigin maxPages maxDepth s)
          < crawl_measure maxPages s"
    using q
    by (auto simp: crawl_iter_def Let_def links split: outcome.splits fetch_result.splits)
       (simp_all add: crawl_measure_def)
  then show "((net, baseOrigin, maxPages, maxDepth,
               crawl_iter net baseOrigin maxPages maxDepth s),
              (net, baseOrigin, maxPages, maxDepth, s))
             \<in> measure (\<lambda>(net, baseOrigin, maxPages, maxDepth, s). crawl_measure maxPages s)"
    by simp
qed

definition initial_state :: "string \<Rightarrow> crawl_state" where
  "initial_state baseUrl =
     \<lparr>discoveredUrls = [baseUrl], visitedUrls = [], queue = [(baseUrl, 0)], visits = []\<rparr>"

text \<open>
  \<^verbatim>\<open>crawlWebsite\<close>: \<open>crawl_run\<close> is the state the loop ends in, the result is
  \<^verbatim>\<open>Array.from(discoveredUrls)\<close>. \<^verbatim>\<open>new URL(baseUrl)\<close> is outside any \<^verbatim>\<open>try\<close>, so a
  seed that does not parse makes the call fail. The options \<^verbatim>\<open>maxPages\<close> and
  \<^verbatim>\<open>maxDepth\<close> (50 and 3 when left out) are arguments here; \<^verbatim>\<open>basePath\<close> is computed
  and never read, and the progress callback is left out.
\<close>

definition crawl_run ::
  "string list net_env \<Rightarrow> string \<Rightarrow> string \<Rightarrow> int \<Rightarrow> int \<Rightarrow> crawl_state" where
  "crawl_run net baseOrigin baseUrl maxPages maxDepth =
     crawl_loop net baseOrigin maxPages maxDepth (initial_state baseUrl)"

definition crawlWebsite ::
  "string list net_env \<Rightarrow> string \<Rightarrow> int \<Rightarrow> int \<Rightarrow> js_error + string list" where
  "crawlWebsite net baseUrl maxPages maxDepth =
     (case new_URL net baseUrl of
        Throws m \<Rightarrow> Inl (TypeError m)
      | Returns urlObj \<Rightarrow>
          Inr (discoveredUrls (crawl_run net (origin urlObj) baseUrl maxPages maxDepth)))"

section \<open>A small site\<close>

text \<open>
  A site of three pages to run the crawler on. The table gives what the URL parser makes
  of each string that occurs; the front page links to a page, a document with a query
  string, an image, another origin, a bare fragment, a quoted link with a fragment and a
  mail address.
\<close>

definition example_url :: "string \<Rightarrow> url outcome" where
  "example_url h =
     (if h = ''https://a.example/'' \<or> h = ''/'' then
        Returns \<lparr>origin = ''https://a.example'', href_prefix = ''https://a.example'',
                 pathname = ''/'', search = [], hash = []\<rparr>
      else if h = ''/about'' \<or> h = ''https://a.example/about'' then
        Returns \<lparr>origin = ''https://a.example'', href_prefix = ''https://a.example'',
                 pathname = ''/about'', search = [], hash = []\<rparr>
      else if h = ''/about#team'' then
        Returns \<lparr>origin = ''https://a.example'', href_prefix = ''https://a.example'',
                 pathname = ''/about'', search = [], hash = ''#team''\<rparr>
      else if h = ''/report.pdf?v=1'' \<or> h = ''https://a.example/report.pdf?v=1'' then
        Returns \<lparr>origin = ''https://a.example'', href_prefix = ''https://a.example'',
                 pathname = ''/report.pdf'', search = ''?v=1'', hash = []\<rparr>
      else if h = ''/logo.PNG'' \<or> h = ''https://a.example/logo.PNG'' then
        Returns \<lparr>origin = ''https://a.example'', href_prefix = ''https://a.example'',
                 pathname = ''/logo.PNG'', search = [], hash = []\<rparr>
      else if h = ''https://b.example/x'' then
        Returns \<lparr>origin = ''https://b.example'', href_prefix = ''https://b.example'',
                 pathname = ''/x'', search = [], hash = []\<rparr>
      else Throws ''Invalid URL'')"

definition example_site :: "string list net_env" where
  "example_site =
     \<lparr>new_URL = example_url,
      new_URL_base = (\<lambda>h base. example_url h),
      fetch = (\<lambda>u. if u = ''https://a.example/''
                     then Response True (Returns [''/about'', ''/report.pdf?v=1'', ''/logo.PNG'',
                            ''https://b.example/x'', ''#'', CHR 0x27 # ''/about#team'' @ [CHR 0x27, CHR 0x20], ''mailto:x@a.example''])
                     else if u = ''https://a.example/about''
                     then Response True (Returns [''/'', ''/about''])
                     else if u = ''https://a.example/report.pdf?v=1''
                     then Response False (Returns [])
                     else Rejected ''Failed to fetch'')\<rparr>"


text \<open>A fetch that rejects or answers with a status outside 2xx.\<close>

definition fetch_fails :: "'b net_env \<Rightarrow> string \<Rightarrow> bool" where
  "fetch_fails net u = (case fetch net u of Rejected m \<Rightarrow> True | Response ok body \<Rightarrow> \<not> ok)"

section \<open>Reading a scan\<close>

text \<open>
  The entries one rule contributes to \<^verbatim>\<open>passed\<close> and to \<^verbatim>\<open>violations\<close>, given how
  the rules are evaluated; used to say what a report contains.
\<close>

definition passed_of :: "(('d, 'e) rule \<Rightarrow> js_error + verdict) \<Rightarrow> ('d, 'e) rule \<Rightarrow> passed_check list" where
  "passed_of ev r = (case ev r of Inr (Passed p) \<Rightarrow> [p] | _ \<Rightarrow> [])"

definition violations_of :: "(('d, 'e) rule \<Rightarrow> js_error + verdict) \<Rightarrow> ('d, 'e) rule \<Rightarrow> violation list" where
  "violations_of ev r = (case ev r of Inr (Violated v) \<Rightarrow> [v] | _ \<Rightarrow> [])"

section \<open>A small catalogue\<close>

text \<open>
  Pages are lists of elements, an element a tag with its markup, and a selector a tag
  name. Four rules of the kinds the catalogue has: a global check, an element check, a
  manual rule and an element check that throws; and a global check that throws.
\<close>

type_synonym example_element = "string \<times> string"

type_synonym example_dom = "example_element list"

definition rule_root :: "(example_dom, example_element) rule" where
  "rule_root =
     \<lparr>r_id = ''1'', r_category = ''General'', r_description = ''Has a root element'',
      r_requirements = [], r_type = ''automated'', r_severity = ''high'',
      globalCheck = Some (\<lambda>doc. Returns (JBool (dom doc \<noteq> []))),
      selector = None, check = None\<rparr>"

definition rule_img :: "(example_dom, example_element) rule" where
  "rule_img =
     \<lparr>r_id = ''2'', r_category = ''Images'', r_description = ''Images carry attributes'',
      r_requirements = [], r_type = ''automated'', r_severity = ''medium'',
      globalCheck = None,
      selector = Some ''img'', check = Some (\<lambda>el. Returns (JBool (snd el \<noteq> ''<img>'')))\<rparr>"

definition rule_manual :: "(example_dom, example_element) rule" where
  "rule_manual =
     \<lparr>r_id = ''3'', r_category = ''Content'', r_description = ''Tone of voice'',
      r_requirements = [], r_type = ''manual'', r_severity = ''low'',
      globalCheck = None, selector = None, check = None\<rparr>"

definition rule_upload :: "(example_dom, example_element) rule" where
  "rule_upload =
     \<lparr>r_id = ''4'', r_category = ''Forms'', r_description = ''Inputs are styled'',
      r_requirements = [], r_type = ''automated'', r_severity = ''low'',
      globalCheck = None,
      selector = Some ''input'', check = Some (\<lambda>el. Throws ''style is undefined'')\<rparr>"

definition rule_boom :: "(example_dom, example_element) rule" where
  "rule_boom =
     \<lparr>r_id = ''5'', r_category = ''General'', r_description = ''Reads the viewport'',
      r_requirements = [], r_type = ''automated'', r_severity = ''high'',
      globalCheck = Some (\<lambda>doc. Throws ''viewport is null''),
      selector = None, check = None\<rparr>"

definition example_env :: "(example_dom, example_element) scan_env" where
  "example_env =
     \<lparr>dgaRules = [rule_root, rule_img, rule_manual, rule_upload],
      querySelectorAll = (\<lambda>d s. filter (\<lambda>el. fst el = s) d),
      outerHTML = snd,
      documentElement = (\<lambda>d. case d of [] \<Rightarrow> None | el # els \<Rightarrow> Some el),
      window_href = None\<rparr>"

definition throwing_env :: "(example_dom, example_element) scan_env" where
  "throwing_env = example_env\<lparr>dgaRules := [rule_root, rule_boom, rule_img]\<rparr>"

definition example_pages :: "example_dom net_env" where
  "example_pages =
     \<lparr>new_URL = example_url,
      new_URL_base = (\<lambda>h base. example_url h),
      fetch = (\<lambda>u. if u = ''https://a.example/''
                     then Response True (Returns [(''html'', ''<html>''), (''img'', ''<img>'')])
                     else if u = ''https://a.example/about''
                     then Response True (Returns [(''html'', ''<html>''), (''input'', ''<input>'')])
                     else Response False (Returns []))\<rparr>"

definition bare_page :: "example_dom document" where
  "bare_page = \<lparr>dom = [(''html'', ''<html>'')], doc_url = None\<rparr>"

section \<open>Reading the deduplicated violations\<close>

text \<open>
  Two notions to state what deduplication yields: the values of a list in the order of
  their first appearance, and the violations of a scan that have a given key.
\<close>

definition distinct_in_order :: "'a list \<Rightarrow> 'a list" where
  "distinct_in_order xs = rev (remdups (rev xs))"

definition occurrences_of :: "string \<Rightarrow> violation list \<Rightarrow> violation list" where
  "occurrences_of k vs = filter (\<lambda>v. dedup_key v = k) vs"

text \<open>
  The invariant of the deduplication loop: after the violations \<open>vs\<close>, the map has one
  entry for each key that occurs in \<open>vs\<close>, built from the first violation with that key,
  listing the pages of all of them once and counting those pages.
\<close>

definition entry_ok :: "violation list \<Rightarrow> string \<Rightarrow> deduped_violation \<Rightarrow> bool" where
  "entry_ok vs k d \<longleftrightarrow>
     dedup_key d = k \<and> occurrences_of k vs \<noteq> [] \<and>
     violation.truncate d = hd (occurrences_of k vs) \<and>
     affectedPages d = distinct_in_order (map v_pageUrl (occurrences_of k vs)) \<and>
     occurrences d = length (affectedPages d)"

definition map_ok :: "violation list \<Rightarrow> (string \<times> deduped_violation) list \<Rightarrow> bool" where
  "map_ok vs m \<longleftrightarrow>
     distinct (map fst m) \<and> fst ` set m = dedup_key ` set vs \<and>
     (\<forall>k d. map_of m k = Some d \<longrightarrow> entry_ok vs k d)"

text \<open>The same violation found on three pages.\<close>

definition img_violation :: "string \<Rightarrow> violation" where
  "img_violation u = violation_entry rule_img u (Some ''<img>'') None None"

definition three_pages :: "violation list" where
  "three_pages =
     [img_violation ''https://a.example/'', img_violation ''https://a.example/about'',
      img_violation ''https://a.example/contact'']"

text \<open>A catalogue of forty automated rules, and a page on which seventeen of them fail.\<close>

definition forty_rules :: "(example_dom, example_element) scan_env" where
  "forty_rules = example_env\<lparr>dgaRules := replicate 23 rule_root @ replicate 17 rule_img\<rparr>"

definition img_page :: "example_dom document" where
  "img_page = \<lparr>dom = [(''html'', ''<html>''), (''img'', ''<img>'')], doc_url = None\<rparr>"

section \<open>Status of an aggregate report\<close>

text \<open>
  C3. The status of the report of \<^verbatim>\<open>scanMultipleUrls\<close> is Compliant when the scan
  collected no violation (counted before deduplication), Non-Compliant when it collected
  more violations than passed checks, and Partially Compliant otherwise.
\<close>

theorem status_thresholds:
  "status (scanMultipleUrls scan urls) =
     (if totalViolationsBeforeDedup (scanMultipleUrls scan urls) = 0 then ''Compliant''
      else if totalViolationsBeforeDedup (scanMultipleUrls scan urls)
                > length (passed (scanMultipleUrls scan urls)) then ''Non-Compliant''
      else ''Partially Compliant'')"
  by (cases "scan_pages scan urls") (simp add: scanMultipleUrls_def overall_status_def)

section \<open>Crawler: invariants of the walk\<close>

declare crawl_loop.simps [simp del]

lemma crawl_loop_invariant:
  assumes "P s"
    and "\<And>t. P t \<Longrightarrow> crawl_cond maxPages t \<Longrightarrow> P (crawl_iter net baseOrigin maxPages maxDepth t)"
  shows "P (crawl_loop net baseOrigin maxPages maxDepth s)"
  using assms
proof (induction net baseOrigin maxPages maxDepth s rule: crawl_loop.induct)
  case (1 net baseOrigin maxPages maxDepth s)
  show ?case
  proof (cases "crawl_cond maxPages s")
    case True
    then show ?thesis
      using 1 by (subst crawl_loop.simps) simp
  next
    case False
    then show ?thesis
      using 1 by (subst crawl_loop.simps) simp
  qed
qed

lemma add_link_fields:
  "visitedUrls (add_link maxPages d s l) = visitedUrls s"
  "visits (add_link maxPages d s l) = visits s"
  by (simp_all add: add_link_def)

lemma add_links_fields:
  "visitedUrls (add_links maxPages d ls s) = visitedUrls s"
  "visits (add_links maxPages d ls s) = visits s"
  unfolding add_links_def by (induction ls arbitrary: s) (simp_all add: add_link_fields)

lemma add_links_discovered:
  "\<exists>ys. discoveredUrls (add_links maxPages d ls s) = discoveredUrls s @ ys \<and> set ys \<subseteq> set ls"
  unfolding add_links_def
proof (induction ls arbitrary: s)
  case Nil
  then show ?case by simp
next
  case (Cons l ls)
  obtain ys where ys: "discoveredUrls (foldl (add_link maxPages d) (add_link maxPages d s l) ls)
      = discoveredUrls (add_link maxPages d s l) @ ys" "set ys \<subseteq> set ls"
    using Cons.IH by blast
  show ?case
  proof (cases "l \<notin> set (discoveredUrls s) \<and> int (length (discoveredUrls s)) < maxPages")
    case True
    then have "discoveredUrls (add_link maxPages d s l) = discoveredUrls s @ [l]"
      by (simp add: add_link_def)
    with ys show ?thesis by (intro exI [of _ "l # ys"]) auto
  next
    case False
    then have "add_link maxPages d s l = s" by (auto simp: add_link_def)
    with ys show ?thesis by (intro exI [of _ ys]) auto
  qed
qed

lemma add_links_bound:
  "int (length (discoveredUrls s)) \<le> max 1 maxPages \<Longrightarrow>
   int (length (discoveredUrls (add_links maxPages d ls s))) \<le> max 1 maxPages"
  unfolding add_links_def
  by (induction ls arbitrary: s) (auto simp: add_link_def)

lemma crawl_iter_cases:
  assumes "queue s = (u, depth) # rest"
  shows "crawl_iter net baseOrigin maxPages maxDepth s = s\<lparr>queue := rest\<rparr> \<or>
         crawl_iter net baseOrigin maxPages maxDepth s =
           s\<lparr>queue := rest, visitedUrls := visitedUrls s @ [u], visits := visits s @ [(u, depth)]\<rparr> \<and>
           \<not> int depth > maxDepth \<or>
         (\<exists>ls. crawl_iter net baseOrigin maxPages maxDepth s =
           add_links maxPages depth ls
             (s\<lparr>queue := rest, visitedUrls := visitedUrls s @ [u], visits := visits s @ [(u, depth)]\<rparr>) \<and>
           \<not> int depth > maxDepth \<and>
           (\<exists>anchors. ls = extractLinks net anchors u baseOrigin))"
  using assms
  by (auto simp: crawl_iter_def Let_def split: outcome.splits fetch_result.splits)

lemma crawl_iter_discovered:
  "\<exists>ys. discoveredUrls (crawl_iter net baseOrigin maxPages maxDepth s) = discoveredUrls s @ ys \<and>
        (\<forall>l \<in> set ys. \<exists>anchors u. l \<in> set (extractLinks net anchors u baseOrigin))"
proof (cases "queue s")
  case Nil
  then show ?thesis by (simp add: crawl_iter_def)
next
  case (Cons e rest)
  obtain u depth where "e = (u, depth)" by (cases e)
  with Cons have q: "queue s = (u, depth) # rest" by simp
  let ?s2 = "s\<lparr>queue := rest, visitedUrls := visitedUrls s @ [u], visits := visits s @ [(u, depth)]\<rparr>"
  consider "crawl_iter net baseOrigin maxPages maxDepth s = s\<lparr>queue := rest\<rparr>"
    | "crawl_iter net baseOrigin maxPages maxDepth s = ?s2"
    | anchors where "crawl_iter net baseOrigin maxPages maxDepth s =
          add_links maxPages depth (extractLinks net anchors u baseOrigin) ?s2"
    using crawl_iter_cases [OF q, of net baseOrigin maxPages maxDepth] by blast
  then show ?thesis
  proof cases
    case 1
    then show ?thesis by simp
  next
    case 2
    then show ?thesis by simp
  next
    case 3
    obtain ys where "discoveredUrls (add_links maxPages depth (extractLinks net anchors u baseOrigin) ?s2)
        = discoveredUrls ?s2 @ ys" "set ys \<subseteq> set (extractLinks net anchors u baseOrigin)"
      using add_links_discovered by blast
    with 3 show ?thesis by (intro exI [of _ ys]) auto
  qed
qed

lemma crawl_loop_discovered:
  "\<exists>ys. discoveredUrls (crawl_loop net baseOrigin maxPages maxDepth s) = discoveredUrls s @ ys \<and>
        (\<forall>l \<in> set ys. \<exists>anchors u. l \<in> set (extractLinks net anchors u baseOrigin))"
proof (rule crawl_loop_invariant
    [where P = "\<lambda>t::crawl_state. \<exists>ys. discoveredUrls t = discoveredUrls s @ ys \<and>
        (\<forall>l \<in> set ys. \<exists>anchors u. l \<in> set (extractLinks net anchors u baseOrigin))"])
  show "\<exists>ys. discoveredUrls s = discoveredUrls s @ ys \<and>
        (\<forall>l \<in> set ys. \<exists>anchors u. l \<in> set (extractLinks net anchors u baseOrigin))"
    by simp
next
  fix t :: crawl_state
  assume "\<exists>ys. discoveredUrls t = discoveredUrls s @ ys \<and>
        (\<forall>l \<in> set ys. \<exists>anchors u. l \<in> set (extractLinks net anchors u baseOrigin))"
  then obtain ys where ys: "discoveredUrls t = discoveredUrls s @ ys"
      "\<forall>l \<in> set ys. \<exists>anchors u. l \<in> set (extractLinks net anchors u baseOrigin)" by blast
  obtain zs where zs: "discoveredUrls (crawl_iter net baseOrigin maxPages maxDepth t) = discoveredUrls t @ zs"
      "\<forall>l \<in> set zs. \<exists>anchors u. l \<in> set (extractLinks net anchors u baseOrigin)"
    using crawl_iter_discovered by blast
  show "\<exists>ys. discoveredUrls (crawl_iter net baseOrigin maxPages maxDepth t) = discoveredUrls s @ ys \<and>
        (\<forall>l \<in> set ys. \<exists>anchors u. l \<in> set (extractLinks net anchors u baseOrigin))"
    using ys zs by (intro exI [of _ "ys @ zs"]) auto
qed

lemma crawl_loop_stops:
  "\<not> crawl_cond maxPages s \<Longrightarrow> crawl_loop net baseOrigin maxPages maxDepth s = s"
  by (subst crawl_loop.simps) simp

lemma crawl_seed_fails:
  assumes "fetch_fails net baseUrl"
  shows "discoveredUrls (crawl_run net baseOrigin baseUrl maxPages maxDepth) = [baseUrl]"
proof (cases "crawl_cond maxPages (initial_state baseUrl)")
  case False
  then show ?thesis by (simp add: crawl_run_def crawl_loop_stops) (simp add: initial_state_def)
next
  case True
  let ?s = "crawl_iter net baseOrigin maxPages maxDepth (initial_state baseUrl)"
  have "queue ?s = [] \<and> discoveredUrls ?s = [baseUrl]"
    using assms
    by (auto simp: crawl_iter_def initial_state_def fetch_fails_def Let_def
             split: outcome.splits fetch_result.splits)
  then have "\<not> crawl_cond maxPages ?s" "discoveredUrls ?s = [baseUrl]"
    by (simp_all add: crawl_cond_def)
  then show ?thesis
    using True by (simp add: crawl_run_def crawl_loop.simps [of _ _ _ _ "initial_state baseUrl"] crawl_loop_stops)
qed

section \<open>The seed URL\<close>

text \<open>
  C10. The seed is put into \<^verbatim>\<open>discoveredUrls\<close> as it was given, before the loop, and
  stays the first element of the returned list: whenever the seed parses as a URL (otherwise
  \<^verbatim>\<open>crawlWebsite\<close> throws before it starts), the result begins with the seed, and it is
  the seed alone when fetching the seed fails. Neither the fragment nor the extension of
  the seed matters.
\<close>

theorem seed_is_first:
  assumes "new_URL net baseUrl = Returns urlObj"
  shows "(\<exists>rest. crawlWebsite net baseUrl maxPages maxDepth = Inr (baseUrl # rest)) \<and>
         (fetch_fails net baseUrl \<longrightarrow> crawlWebsite net baseUrl maxPages maxDepth = Inr [baseUrl])"
proof -
  obtain ys where "discoveredUrls (crawl_run net (origin urlObj) baseUrl maxPages maxDepth)
      = discoveredUrls (initial_state baseUrl) @ ys"
    unfolding crawl_run_def using crawl_loop_discovered by blast
  then have "crawlWebsite net baseUrl maxPages maxDepth = Inr (baseUrl # ys)"
    using assms by (simp add: crawlWebsite_def initial_state_def)
  moreover have "fetch_fails net baseUrl \<longrightarrow> crawlWebsite net baseUrl maxPages maxDepth = Inr [baseUrl]"
    using assms by (simp add: crawlWebsite_def crawl_seed_fails)
  ultimately show ?thesis by blast
qed

lemma seed_ex1: "new_URL example_site ''https://a.example/logo.PNG'' =
    Returns \<lparr>origin = ''https://a.example'', href_prefix = ''https://a.example'',
                 pathname = ''/logo.PNG'', search = [], hash = []\<rparr>"
  by (simp add: example_site_def example_url_def)

theorem seed_is_first_witness:
  "new_URL example_site ''https://a.example/logo.PNG'' =
    Returns \<lparr>origin = ''https://a.example'', href_prefix = ''https://a.example'',
                 pathname = ''/logo.PNG'', search = [], hash = []\<rparr> \<and>
   fetch_fails example_site ''https://a.example/logo.PNG'' \<and>
   isNonPageResource ''https://a.example/logo.PNG'' \<and>
   crawlWebsite example_site ''https://a.example/logo.PNG'' 50 3 = Inr [''https://a.example/logo.PNG'']"
proof -
  have f: "fetch_fails example_site ''https://a.example/logo.PNG''"
    by (simp add: fetch_fails_def example_site_def)
  have n: "isNonPageResource ''https://a.example/logo.PNG''"
    by code_simp
  show ?thesis
    using seed_is_first [OF seed_ex1, of 50 3] f n seed_ex1 by blast
qed

lemma crawl_iter_visits:
  assumes "\<forall>(u, d) \<in> set (visits s). int d \<le> maxDepth" "visitedUrls s = map fst (visits s)"
  shows "(\<forall>(u, d) \<in> set (visits (crawl_iter net baseOrigin maxPages maxDepth s)). int d \<le> maxDepth) \<and>
         visitedUrls (crawl_iter net baseOrigin maxPages maxDepth s)
           = map fst (visits (crawl_iter net baseOrigin maxPages maxDepth s))"
proof (cases "queue s")
  case Nil
  then show ?thesis using assms by (simp add: crawl_iter_def)
next
  case (Cons e rest)
  obtain u depth where "e = (u, depth)" by (cases e)
  with Cons have q: "queue s = (u, depth) # rest" by simp
  from crawl_iter_cases [OF q, of net baseOrigin maxPages maxDepth]
  show ?thesis
    using assms by (elim disjE exE conjE) (auto simp: add_links_fields)
qed

lemma crawl_iter_bound:
  assumes "int (length (discoveredUrls s)) \<le> max 1 maxPages"
  shows "int (length (discoveredUrls (crawl_iter net baseOrigin maxPages maxDepth s))) \<le> max 1 maxPages"
proof (cases "queue s")
  case Nil
  then show ?thesis using assms by (simp add: crawl_iter_def)
next
  case (Cons e rest)
  obtain u depth where "e = (u, depth)" by (cases e)
  with Cons have q: "queue s = (u, depth) # rest" by simp
  let ?s2 = "s\<lparr>queue := rest, visitedUrls := visitedUrls s @ [u], visits := visits s @ [(u, depth)]\<rparr>"
  have "int (length (discoveredUrls ?s2)) \<le> max 1 maxPages" using assms by simp
  then have "int (length (discoveredUrls (add_links maxPages depth ls ?s2))) \<le> max 1 maxPages" for ls
    by (rule add_links_bound)
  with crawl_iter_cases [OF q, of net baseOrigin maxPages maxDepth]
  show ?thesis
    using assms by (elim disjE exE conjE) simp_all
qed

section \<open>Bounds of the walk\<close>

text \<open>
  C7, as the code has it. The seed is in \<^verbatim>\<open>discoveredUrls\<close> before the loop looks at
  \<^verbatim>\<open>maxPages\<close>, so the returned list has at most \<open>max 1 maxPages\<close> URLs: at most
  \<^verbatim>\<open>maxPages\<close> of them whenever \<^verbatim>\<open>maxPages\<close> is at least one. Every queue entry that is
  visited (marked, announced and fetched) has a depth of at most \<^verbatim>\<open>maxDepth\<close>, so an
  entry enqueued at depth \<^verbatim>\<open>maxDepth + 1\<close> is never visited; and \<^verbatim>\<open>visitedUrls\<close> holds
  exactly the URLs of those entries.
\<close>

theorem crawl_bounds:
  assumes "new_URL net baseUrl = Returns urlObj"
  shows "(\<exists>urls. crawlWebsite net baseUrl maxPages maxDepth = Inr urls \<and>
            int (length urls) \<le> max 1 maxPages) \<and>
         (\<forall>(u, d) \<in> set (visits (crawl_run net (origin urlObj) baseUrl maxPages maxDepth)).
            int d \<le> maxDepth) \<and>
         visitedUrls (crawl_run net (origin urlObj) baseUrl maxPages maxDepth)
           = map fst (visits (crawl_run net (origin urlObj) baseUrl maxPages maxDepth))"
proof -
  let ?run = "crawl_run net (origin urlObj) baseUrl maxPages maxDepth"
  have "int (length (discoveredUrls ?run)) \<le> max 1 maxPages"
    unfolding crawl_run_def
    by (rule crawl_loop_invariant [where P = "\<lambda>t::crawl_state. int (length (discoveredUrls t)) \<le> max 1 maxPages"])
       (simp_all add: initial_state_def crawl_iter_bound)
  moreover have "(\<forall>(u, d) \<in> set (visits ?run). int d \<le> maxDepth) \<and>
      visitedUrls ?run = map fst (visits ?run)"
    unfolding crawl_run_def
  proof (rule crawl_loop_invariant [where P = "\<lambda>t::crawl_state.
          (\<forall>(u, d) \<in> set (visits t). int d \<le> maxDepth) \<and> visitedUrls t = map fst (visits t)"])
    show "(\<forall>(u, d) \<in> set (visits (initial_state baseUrl)). int d \<le> maxDepth) \<and>
          visitedUrls (initial_state baseUrl) = map fst (visits (initial_state baseUrl))"
      by (simp add: initial_state_def)
  next
    fix t :: crawl_state
    assume "(\<forall>(u, d) \<in> set (visits t). int d \<le> maxDepth) \<and> visitedUrls t = map fst (visits t)"
    then show "(\<forall>(u, d) \<in> set (visits (crawl_iter net (origin urlObj) maxPages maxDepth t)).
                  int d \<le> maxDepth) \<and>
          visitedUrls (crawl_iter net (origin urlObj) maxPages maxDepth t)
            = map fst (visits (crawl_iter net (origin urlObj) maxPages maxDepth t))"
      using crawl_iter_visits [of t maxDepth net "origin urlObj" maxPages] by blast
  qed
  ultimately show ?thesis
    using assms by (simp add: crawlWebsite_def)
qed

lemma site_seed: "new_URL example_site ''https://a.example/'' =
    Returns \<lparr>origin = ''https://a.example'', href_prefix = ''https://a.example'',
             pathname = ''/'', search = [], hash = []\<rparr>"
  by (simp add: example_site_def example_url_def)

lemma site_run_depth0:
  "crawl_run example_site ''https://a.example'' ''https://a.example/'' 50 0 =
     \<lparr>discoveredUrls = [''https://a.example/'', ''https://a.example/about'',
                        ''https://a.example/report.pdf?v=1''],
      visitedUrls = [''https://a.example/''],
      queue = [],
      visits = [(''https://a.example/'', 0)]\<rparr>"
  by code_simp

theorem crawl_bounds_witness:
  "new_URL example_site ''https://a.example/'' =
     Returns \<lparr>origin = ''https://a.example'', href_prefix = ''https://a.example'',
              pathname = ''/'', search = [], hash = []\<rparr> \<and>
   crawlWebsite example_site ''https://a.example/'' 50 0 =
     Inr [''https://a.example/'', ''https://a.example/about'',
          ''https://a.example/report.pdf?v=1''] \<and>
   visits (crawl_run example_site ''https://a.example'' ''https://a.example/'' 50 0) =
     [(''https://a.example/'', 0)]"
proof -
  have "crawlWebsite example_site ''https://a.example/'' 50 0 =
     Inr [''https://a.example/'', ''https://a.example/about'',
          ''https://a.example/report.pdf?v=1'']"
    by (simp add: crawlWebsite_def site_seed site_run_depth0)
  then show ?thesis
    using crawl_bounds [OF site_seed, of 50 0] site_seed site_run_depth0 by simp
qed

text \<open>With a page budget of zero the result still holds the seed: one URL, not at most zero.\<close>

theorem crawl_bounds_counterexample:
  "crawlWebsite example_site ''https://a.example/'' 0 3 = Inr [''https://a.example/''] \<and>
   \<not> int (length [''https://a.example/'']) \<le> 0"
  by (simp add: crawlWebsite_def site_seed crawl_run_def crawl_loop_stops crawl_cond_def initial_state_def)


lemma add_links_progress:
  "(discoveredUrls (add_links maxPages d ls s) = discoveredUrls s \<and>
      queue (add_links maxPages d ls s) = queue s) \<or>
   (length (discoveredUrls s) < length (discoveredUrls (add_links maxPages d ls s)) \<and>
      int (length (discoveredUrls (add_links maxPages d ls s))) \<le> maxPages)"
  unfolding add_links_def
proof (induction ls arbitrary: s)
  case Nil
  then show ?case by simp
next
  case (Cons l ls)
  show ?case
  proof (cases "l \<notin> set (discoveredUrls s) \<and> int (length (discoveredUrls s)) < maxPages")
    case False
    then have "add_link maxPages d s l = s" by (auto simp: add_link_def)
    then show ?thesis using Cons.IH [of s] by simp
  next
    case True
    then have *: "discoveredUrls (add_link maxPages d s l) = discoveredUrls s @ [l]"
      by (simp add: add_link_def)
    show ?thesis
      using Cons.IH [of "add_link maxPages d s l"] True by (auto simp: *)
  qed
qed

lemma crawl_iter_progress:
  assumes "crawl_cond maxPages s"
  shows "(length (discoveredUrls s) < length (discoveredUrls (crawl_iter net baseOrigin maxPages maxDepth s)) \<and>
          int (length (discoveredUrls (crawl_iter net baseOrigin maxPages maxDepth s))) \<le> maxPages) \<or>
         (discoveredUrls (crawl_iter net baseOrigin maxPages maxDepth s) = discoveredUrls s \<and>
          length (queue (crawl_iter net baseOrigin maxPages maxDepth s)) < length (queue s))"
proof -
  from assms obtain u depth rest where q: "queue s = (u, depth) # rest"
    by (cases "queue s") (auto simp: crawl_cond_def)
  let ?s2 = "s\<lparr>queue := rest, visitedUrls := visitedUrls s @ [u], visits := visits s @ [(u, depth)]\<rparr>"
  consider "crawl_iter net baseOrigin maxPages maxDepth s = s\<lparr>queue := rest\<rparr>"
    | "crawl_iter net baseOrigin maxPages maxDepth s = ?s2"
    | ls where "crawl_iter net baseOrigin maxPages maxDepth s = add_links maxPages depth ls ?s2"
    using crawl_iter_cases [OF q, of net baseOrigin maxPages maxDepth] by blast
  then show ?thesis
  proof cases
    case 1
    then show ?thesis using q by simp
  next
    case 2
    then show ?thesis using q by simp
  next
    case 3
    from add_links_progress [of maxPages depth ls ?s2] show ?thesis
      using 3 q by auto
  qed
qed

lemma add_links_measure:
  "crawl_measure maxPages (add_links maxPages d ls s) = crawl_measure maxPages s"
  unfolding add_links_def
  by (induction ls arbitrary: s) (auto simp: add_link_def crawl_measure_def)

lemma crawl_iter_measure:
  assumes "crawl_cond maxPages s"
  shows "crawl_measure maxPages (crawl_iter net baseOrigin maxPages maxDepth s) < crawl_measure maxPages s"
proof -
  from assms obtain u depth rest where q: "queue s = (u, depth) # rest"
    by (cases "queue s") (auto simp: crawl_cond_def)
  from crawl_iter_cases [OF q, of net baseOrigin maxPages maxDepth] show ?thesis
    using q by (elim disjE exE conjE) (simp_all add: add_links_measure, simp_all add: crawl_measure_def)
qed

lemma crawl_loop_iterates:
  "\<exists>n \<le> crawl_measure maxPages s.
      \<not> crawl_cond maxPages ((crawl_iter net baseOrigin maxPages maxDepth ^^ n) s) \<and>
      (\<forall>k < n. crawl_cond maxPages ((crawl_iter net baseOrigin maxPages maxDepth ^^ k) s)) \<and>
      crawl_loop net baseOrigin maxPages maxDepth s = (crawl_iter net baseOrigin maxPages maxDepth ^^ n) s"
proof (induction "crawl_measure maxPages s" arbitrary: s rule: less_induct)
  case less
  let ?f = "crawl_iter net baseOrigin maxPages maxDepth"
  show ?case
  proof (cases "crawl_cond maxPages s")
    case False
    then show ?thesis
      by (intro exI [of _ 0]) (simp add: crawl_loop_stops)
  next
    case True
    have m: "crawl_measure maxPages (?f s) < crawl_measure maxPages s"
      by (rule crawl_iter_measure [OF True])
    from less [OF m] obtain n where n: "n \<le> crawl_measure maxPages (?f s)"
        "\<not> crawl_cond maxPages ((?f ^^ n) (?f s))"
        "\<forall>k < n. crawl_cond maxPages ((?f ^^ k) (?f s))"
        "crawl_loop net baseOrigin maxPages maxDepth (?f s) = (?f ^^ n) (?f s)"
      by blast
    have loop: "crawl_loop net baseOrigin maxPages maxDepth s = crawl_loop net baseOrigin maxPages maxDepth (?f s)"
      using True by (subst crawl_loop.simps) simp
    have all: "\<forall>k < Suc n. crawl_cond maxPages ((?f ^^ k) s)"
    proof (intro allI impI)
      fix k assume "k < Suc n"
      then show "crawl_cond maxPages ((?f ^^ k) s)"
        using True n(3) by (cases k) (simp_all add: funpow_swap1)
    qed
    show ?thesis
      using n m loop all by (intro exI [of _ "Suc n"]) (simp add: funpow_swap1)
  qed
qed

section \<open>Termination of the walk\<close>

text \<open>
  C9. Whatever the pages answer, a run of the loop body either makes \<^verbatim>\<open>discoveredUrls\<close>
  longer, staying within \<^verbatim>\<open>maxPages\<close>, or leaves it as it is and makes the queue
  shorter. So the loop condition fails after at most \<open>crawl_measure\<close> runs of the body
  (the queue length plus what is left of the page budget), and the state the loop returns
  is the state reached then.
\<close>

theorem crawl_terminates:
  "(crawl_cond maxPages s \<longrightarrow>
      (length (discoveredUrls s) < length (discoveredUrls (crawl_iter net baseOrigin maxPages maxDepth s)) \<and>
       int (length (discoveredUrls (crawl_iter net baseOrigin maxPages maxDepth s))) \<le> maxPages) \<or>
      (discoveredUrls (crawl_iter net baseOrigin maxPages maxDepth s) = discoveredUrls s \<and>
       length (queue (crawl_iter net baseOrigin maxPages maxDepth s)) < length (queue s))) \<and>
   (\<exists>n \<le> crawl_measure maxPages s.
      \<not> crawl_cond maxPages ((crawl_iter net baseOrigin maxPages maxDepth ^^ n) s) \<and>
      (\<forall>k < n. crawl_cond maxPages ((crawl_iter net baseOrigin maxPages maxDepth ^^ k) s)) \<and>
      crawl_loop net baseOrigin maxPages maxDepth s = (crawl_iter net baseOrigin maxPages maxDepth ^^ n) s)"
  using crawl_iter_progress [of maxPages s net baseOrigin maxDepth]
    crawl_loop_iterates [of maxPages s net baseOrigin maxDepth]
  by blast


lemma site_run:
  "crawl_run example_site ''https://a.example'' ''https://a.example/'' 50 3 =
     \<lparr>discoveredUrls = [''https://a.example/'', ''https://a.example/about'',
                        ''https://a.example/report.pdf?v=1''],
      visitedUrls = [''https://a.example/'', ''https://a.example/about'',
                     ''https://a.example/report.pdf?v=1''],
      queue = [],
      visits = [(''https://a.example/'', 0), (''https://a.example/about'', 1),
                (''https://a.example/report.pdf?v=1'', 1)]\<rparr>"
  by code_simp

theorem crawl_terminates_witness:
  "crawl_cond 50 (initial_state ''https://a.example/'') \<and>
   length (discoveredUrls (initial_state ''https://a.example/''))
     < length (discoveredUrls (crawl_iter example_site ''https://a.example'' 50 3
                                 (initial_state ''https://a.example/''))) \<and>
   \<not> crawl_cond 50 ((crawl_iter example_site ''https://a.example'' 50 3 ^^ 3)
                      (initial_state ''https://a.example/'')) \<and>
   crawl_loop example_site ''https://a.example'' 50 3 (initial_state ''https://a.example/'')
     = (crawl_iter example_site ''https://a.example'' 50 3 ^^ 3) (initial_state ''https://a.example/'')"
proof -
  have 1: "crawl_cond 50 (initial_state ''https://a.example/'')"
    by (simp add: crawl_cond_def initial_state_def)
  have 2: "length (discoveredUrls (initial_state ''https://a.example/''))
     < length (discoveredUrls (crawl_iter example_site ''https://a.example'' 50 3
                                 (initial_state ''https://a.example/'')))"
    by code_simp
  have 3: "\<not> crawl_cond 50 ((crawl_iter example_site ''https://a.example'' 50 3 ^^ 3)
                      (initial_state ''https://a.example/''))"
    by code_simp
  have 4: "crawl_loop example_site ''https://a.example'' 50 3 (initial_state ''https://a.example/'')
     = (crawl_iter example_site ''https://a.example'' 50 3 ^^ 3) (initial_state ''https://a.example/'')"
    by code_simp
  show ?thesis
    using crawl_terminates [of 50 "initial_state ''https://a.example/''" example_site
        "''https://a.example''" 3] 1 2 3 4
    by blast
qed

lemma endsWith_suffix: "endsWith s e \<longleftrightarrow> suffix e s"
proof
  assume "endsWith s e"
  then have "s = take (length s - length e) s @ e"
    by (metis append_take_drop_id endsWith_def)
  then show "suffix e s" by (metis suffixI)
next
  assume "suffix e s"
  then obtain zs where "s = zs @ e" by (auto simp: suffix_def)
  then show "endsWith s e" by (simp add: endsWith_def)
qed

lemma isNonPageResource_iff:
  "isNonPageResource l \<longleftrightarrow> (\<exists>ext \<in> set nonPageExtensions. suffix ext (toLowerCase l))"
  by (simp add: isNonPageResource_def list_ex_iff endsWith_suffix)

lemma link_of_page:
  "link_of net currentUrl baseOrigin attr = Some l \<Longrightarrow> \<not> isNonPageResource l"
  by (auto simp: link_of_def Let_def split: if_splits outcome.splits)

lemma link_of_discards:
  "new_URL_base net (clean_href attr) currentUrl = Returns absoluteUrl \<Longrightarrow>
   isNonPageResource (toString (absoluteUrl\<lparr>hash := []\<rparr>)) \<Longrightarrow>
   link_of net currentUrl baseOrigin attr = None"
  by (simp add: link_of_def Let_def)

lemma extractLinks_from:
  "set (foldl (\<lambda>links attr. case link_of net currentUrl baseOrigin attr of
                            None \<Rightarrow> links | Some l \<Rightarrow> set_add l links) acc anchors)
     \<subseteq> set acc \<union> {l. \<exists>attr \<in> set anchors. link_of net currentUrl baseOrigin attr = Some l}"
proof (induction anchors arbitrary: acc)
  case Nil
  then show ?case by simp
next
  case (Cons a anchors)
  let ?f = "\<lambda>links attr. case link_of net currentUrl baseOrigin attr of
                            None \<Rightarrow> links | Some l \<Rightarrow> set_add l links"
  have "set (?f acc a) \<subseteq> set acc \<union> {l. link_of net currentUrl baseOrigin a = Some l}"
    by (auto simp: set_add_def split: option.splits if_splits)
  with Cons.IH [of "?f acc a"] show ?case by auto
qed

lemma extractLinks_pages:
  "l \<in> set (extractLinks net anchors currentUrl baseOrigin) \<Longrightarrow> \<not> isNonPageResource l"
  using extractLinks_from [of net currentUrl baseOrigin "[]" anchors] link_of_page
  unfolding extractLinks_def by fastforce

section \<open>The extension filter\<close>

text \<open>
  C8, as the code has it. \<^verbatim>\<open>isNonPageResource\<close> looks at the end of the whole
  normalised URL string (fragment removed, query string included), not at the path. A link
  whose normalised URL, in lower case, ends with one of the listed extensions is dropped;
  no link that \<^verbatim>\<open>extractLinks\<close> returns ends with one; and so no URL of the crawl's
  result other than the seed does.
\<close>

theorem extension_filter:
  "(new_URL_base net (clean_href attr) currentUrl = Returns absoluteUrl \<and>
      (\<exists>ext \<in> set nonPageExtensions.
          suffix ext (toLowerCase (toString (absoluteUrl\<lparr>hash := []\<rparr>)))) \<longrightarrow>
      link_of net currentUrl baseOrigin attr = None) \<and>
   (\<forall>l \<in> set (extractLinks net anchors currentUrl baseOrigin).
      \<forall>ext \<in> set nonPageExtensions. \<not> suffix ext (toLowerCase l)) \<and>
   (crawlWebsite net baseUrl maxPages maxDepth = Inr urls \<longrightarrow>
      (\<forall>l \<in> set urls. l = baseUrl \<or> (\<forall>ext \<in> set nonPageExtensions. \<not> suffix ext (toLowerCase l))))"
proof (intro conjI impI)
  assume "new_URL_base net (clean_href attr) currentUrl = Returns absoluteUrl \<and>
      (\<exists>ext \<in> set nonPageExtensions.
          suffix ext (toLowerCase (toString (absoluteUrl\<lparr>hash := []\<rparr>))))"
  then show "link_of net currentUrl baseOrigin attr = None"
    using link_of_discards isNonPageResource_iff by blast
next
  show "\<forall>l \<in> set (extractLinks net anchors currentUrl baseOrigin).
      \<forall>ext \<in> set nonPageExtensions. \<not> suffix ext (toLowerCase l)"
    using extractLinks_pages isNonPageResource_iff by blast
next
  assume r: "crawlWebsite net baseUrl maxPages maxDepth = Inr urls"
  then obtain urlObj where u: "new_URL net baseUrl = Returns urlObj"
    "urls = discoveredUrls (crawl_run net (origin urlObj) baseUrl maxPages maxDepth)"
    by (auto simp: crawlWebsite_def split: outcome.splits)
  obtain ys where ys: "urls = discoveredUrls (initial_state baseUrl) @ ys"
      "\<forall>l \<in> set ys. \<exists>anchors u. l \<in> set (extractLinks net anchors u (origin urlObj))"
    using u(2) crawl_loop_discovered unfolding crawl_run_def by blast
  show "\<forall>l \<in> set urls. l = baseUrl \<or> (\<forall>ext \<in> set nonPageExtensions. \<not> suffix ext (toLowerCase l))"
  proof
    fix l assume "l \<in> set urls"
    then have "l = baseUrl \<or> l \<in> set ys" using ys(1) by (auto simp: initial_state_def)
    then show "l = baseUrl \<or> (\<forall>ext \<in> set nonPageExtensions. \<not> suffix ext (toLowerCase l))"
      using ys(2) extractLinks_pages isNonPageResource_iff by blast
  qed
qed

lemma site_logo: "new_URL_base example_site (clean_href ''/logo.PNG'') ''https://a.example/'' =
    Returns \<lparr>origin = ''https://a.example'', href_prefix = ''https://a.example'',
             pathname = ''/logo.PNG'', search = [], hash = []\<rparr>"
  by code_simp

theorem extension_filter_witness:
  "new_URL_base example_site (clean_href ''/logo.PNG'') ''https://a.example/'' =
    Returns \<lparr>origin = ''https://a.example'', href_prefix = ''https://a.example'',
             pathname = ''/logo.PNG'', search = [], hash = []\<rparr> \<and>
   ''.png'' \<in> set nonPageExtensions \<and>
   suffix ''.png'' (toLowerCase (toString \<lparr>origin = ''https://a.example'',
        href_prefix = ''https://a.example'', pathname = ''/logo.PNG'', search = [], hash = []\<rparr>)) \<and>
   link_of example_site ''https://a.example/'' ''https://a.example'' ''/logo.PNG'' = None \<and>
   crawlWebsite example_site ''https://a.example/'' 50 3 =
     Inr [''https://a.example/'', ''https://a.example/about'', ''https://a.example/report.pdf?v=1'']"
proof -
  have 1: "''.png'' \<in> set nonPageExtensions" by (simp add: nonPageExtensions_def)
  have 2: "suffix ''.png'' (toLowerCase (toString \<lparr>origin = ''https://a.example'',
        href_prefix = ''https://a.example'', pathname = ''/logo.PNG'', search = [], hash = []\<rparr>))"
    unfolding endsWith_suffix [symmetric] by code_simp
  have 3: "crawlWebsite example_site ''https://a.example/'' 50 3 =
     Inr [''https://a.example/'', ''https://a.example/about'', ''https://a.example/report.pdf?v=1'']"
    by (simp add: crawlWebsite_def site_seed site_run)
  have "link_of example_site ''https://a.example/'' ''https://a.example'' ''/logo.PNG'' = None"
    using extension_filter [of example_site "''/logo.PNG''" "''https://a.example/''"
        "\<lparr>origin = ''https://a.example'', href_prefix = ''https://a.example'',
             pathname = ''/logo.PNG'', search = [], hash = []\<rparr>" "''https://a.example''"]
      site_logo 1 2
    by (simp del: set_simps) blast
  then show ?thesis using site_logo 1 2 3 by blast
qed

text \<open>
  A link to \<^verbatim>\<open>/report.pdf?v=1\<close>: the path of the resolved URL ends with \<^verbatim>\<open>.pdf\<close>,
  the link is kept and ends up in the result.
\<close>

theorem extension_filter_counterexample:
  "new_URL_base example_site (clean_href ''/report.pdf?v=1'') ''https://a.example/'' =
     Returns \<lparr>origin = ''https://a.example'', href_prefix = ''https://a.example'',
              pathname = ''/report.pdf'', search = ''?v=1'', hash = []\<rparr> \<and>
   endsWith (toLowerCase ''/report.pdf'') ''.pdf'' \<and>
   link_of example_site ''https://a.example/'' ''https://a.example'' ''/report.pdf?v=1''
     = Some ''https://a.example/report.pdf?v=1'' \<and>
   crawlWebsite example_site ''https://a.example/'' 50 3 =
     Inr [''https://a.example/'', ''https://a.example/about'', ''https://a.example/report.pdf?v=1'']"
proof -
  have 1: "new_URL_base example_site (clean_href ''/report.pdf?v=1'') ''https://a.example/'' =
     Returns \<lparr>origin = ''https://a.example'', href_prefix = ''https://a.example'',
              pathname = ''/report.pdf'', search = ''?v=1'', hash = []\<rparr>"
    by code_simp
  have 2: "endsWith (toLowerCase ''/report.pdf'') ''.pdf''" by code_simp
  have 3: "link_of example_site ''https://a.example/'' ''https://a.example'' ''/report.pdf?v=1''
     = Some ''https://a.example/report.pdf?v=1''"
    by code_simp
  have 4: "crawlWebsite example_site ''https://a.example/'' 50 3 =
     Inr [''https://a.example/'', ''https://a.example/about'', ''https://a.example/report.pdf?v=1'']"
    by (simp add: crawlWebsite_def site_seed site_run)
  show ?thesis using 1 2 3 4 by blast
qed

section \<open>Rule engine: what a scan contains\<close>

lemma run_rules_result:
  "run_rules ev rs (vs0, ps0) = Inr (vs, ps) \<Longrightarrow>
   vs = vs0 @ concat (map (violations_of ev) rs) \<and> ps = ps0 @ concat (map (passed_of ev) rs)"
proof (induction rs arbitrary: vs0 ps0)
  case Nil
  then show ?case by simp
next
  case (Cons r rs)
  show ?case
  proof (cases "ev r")
    case (Inl e)
    with Cons.prems show ?thesis by simp
  next
    case (Inr w)
    show ?thesis
    proof (cases w)
      case Skipped
      with Inr Cons.prems Cons.IH [of vs0 ps0] show ?thesis
        by (simp add: passed_of_def violations_of_def)
    next
      case (Passed p)
      with Inr Cons.prems Cons.IH [of vs0 "ps0 @ [p]"] show ?thesis
        by (simp add: passed_of_def violations_of_def)
    next
      case (Violated v)
      with Inr Cons.prems Cons.IH [of "vs0 @ [v]" ps0] show ?thesis
        by (simp add: passed_of_def violations_of_def)
    qed
  qed
qed

lemma run_rules_total:
  "(\<forall>r \<in> set rs. \<exists>w. ev r = Inr w) \<Longrightarrow> \<exists>res. run_rules ev rs acc = Inr res"
proof (induction rs arbitrary: acc)
  case Nil
  then show ?case by simp
next
  case (Cons r rs)
  obtain vs ps where acc: "acc = (vs, ps)" by (cases acc)
  from Cons.prems obtain w where w: "ev r = Inr w" by auto
  from Cons.prems have "\<forall>r \<in> set rs. \<exists>w. ev r = Inr w" by simp
  then have "\<exists>res. run_rules ev rs acc' = Inr res" for acc' by (rule Cons.IH)
  then show ?case using w acc by (cases w) simp_all
qed

lemma scanDocument_v2_returns:
  "\<exists>vs ps. scanDocument_v2 env doc purl = Inr (make_report vs ps (page_url_of env purl)) \<and>
     vs = concat (map (violations_of (\<lambda>r. Inr (eval_rule_v2 env (tag_document doc purl) purl r))) (dgaRules env)) \<and>
     ps = concat (map (passed_of (\<lambda>r. Inr (eval_rule_v2 env (tag_document doc purl) purl r))) (dgaRules env))"
proof -
  let ?ev = "\<lambda>r. Inr (eval_rule_v2 env (tag_document doc purl) purl r) :: js_error + verdict"
  have "\<forall>r \<in> set (dgaRules env). \<exists>w. ?ev r = Inr w" by simp
  then have "\<exists>res. run_rules ?ev (dgaRules env) ([], []) = Inr res"
    by (rule run_rules_total)
  then obtain vs ps where r: "run_rules ?ev (dgaRules env) ([], []) = Inr (vs, ps)"
    by fastforce
  from run_rules_result [OF r] r show ?thesis
    by (simp add: scanDocument_v2_def)
qed

lemma scanDocument_v3_returns:
  "\<exists>vs ps. scanDocument_v3 env doc purl = Inr (make_report vs ps (page_url_of env purl)) \<and>
     vs = concat (map (violations_of (\<lambda>r. Inr (eval_rule_v3 env (tag_document doc purl) purl r))) (dgaRules env)) \<and>
     ps = concat (map (passed_of (\<lambda>r. Inr (eval_rule_v3 env (tag_document doc purl) purl r))) (dgaRules env))"
proof -
  let ?ev = "\<lambda>r. Inr (eval_rule_v3 env (tag_document doc purl) purl r) :: js_error + verdict"
  have "\<forall>r \<in> set (dgaRules env). \<exists>w. ?ev r = Inr w" by simp
  then have "\<exists>res. run_rules ?ev (dgaRules env) ([], []) = Inr res"
    by (rule run_rules_total)
  then obtain vs ps where r: "run_rules ?ev (dgaRules env) ([], []) = Inr (vs, ps)"
    by fastforce
  from run_rules_result [OF r] r show ?thesis
    by (simp add: scanDocument_v3_def)
qed

lemma scanDocument_v1_result:
  assumes "scanDocument_v1 env doc purl = Inr rep"
  shows "violations rep = concat (map (violations_of (eval_rule_v1 env doc purl)) (dgaRules env)) \<and>
         passed rep = concat (map (passed_of (eval_rule_v1 env doc purl)) (dgaRules env))"
proof -
  from assms obtain vs ps u where r: "run_rules (eval_rule_v1 env doc purl) (dgaRules env) ([], []) = Inr (vs, ps)"
    and rep: "rep = make_report vs ps u"
    by (auto simp: scanDocument_v1_def split: sum.splits)
  from run_rules_result [OF r] rep show ?thesis by (simp add: make_report_def)
qed

lemma tag_document_dom: "dom (tag_document doc purl) = dom doc"
  by (simp add: tag_document_def)

lemma vacuous_v1:
  assumes "r_type r \<noteq> ''manual''" "globalCheck r = None" "selector r = Some s" "s \<noteq> []"
    "check r = Some chk" "querySelectorAll env (dom doc) s = []"
  shows "eval_rule_v1 env doc purl r = Inr (Passed (passed_entry r))"
  using assms by (simp add: eval_rule_v1_def)

lemma vacuous_v2:
  assumes "r_type r \<noteq> ''manual''" "globalCheck r = None" "selector r = Some s" "s \<noteq> []"
    "check r = Some chk" "querySelectorAll env (dom doc) s = []"
  shows "eval_rule_v2 env doc purl r = Passed (passed_entry r)"
  using assms by (simp add: eval_rule_v2_def selector_verdict_v2_def)

lemma vacuous_v3:
  assumes "r_type r \<noteq> ''manual''" "globalCheck r = None" "selector r = Some s" "s \<noteq> []"
    "check r = Some chk" "querySelectorAll env (dom doc) s = []"
  shows "eval_rule_v3 env doc purl r = Passed (passed_entry r)"
  using assms by (simp add: eval_rule_v3_def selector_verdict_v3_def)

lemma violated_id_v1: "eval_rule_v1 env doc purl r = Inr (Violated v) \<Longrightarrow> v_id v = r_id r"
  by (auto simp: eval_rule_v1_def violation_entry_def split: if_splits option.splits outcome.splits sum.splits prod.splits)

lemma violated_id_v2: "eval_rule_v2 env doc purl r = Violated v \<Longrightarrow> v_id v = r_id r"
  by (auto simp: eval_rule_v2_def global_verdict_v2_def selector_verdict_v2_def violation_entry_def
        check_error_violation_def Let_def
      split: if_splits option.splits outcome.splits prod.splits)

lemma violated_id_v3: "eval_rule_v3 env doc purl r = Violated v \<Longrightarrow> v_id v = r_id r"
  by (auto simp: eval_rule_v3_def global_verdict_v3_def selector_verdict_v3_def violation_entry_def Let_def
      split: if_splits option.splits outcome.splits prod.splits)

lemma in_passed_of: "r \<in> set rs \<Longrightarrow> ev r = Inr (Passed p) \<Longrightarrow> p \<in> set (concat (map (passed_of ev) rs))"
  by (auto simp: passed_of_def intro!: bexI [of _ r])

lemma in_violations_of:
  "v \<in> set (concat (map (violations_of ev) rs)) \<Longrightarrow> \<exists>r \<in> set rs. ev r = Inr (Violated v)"
  by (auto simp: violations_of_def split: sum.splits verdict.splits)

lemma distinct_ids:
  "distinct (map r_id rs) \<Longrightarrow> r \<in> set rs \<Longrightarrow> r' \<in> set rs \<Longrightarrow> r_id r' = r_id r \<Longrightarrow> r' = r"
  by (meson distinct_map inj_onD)

section \<open>Vacuous pass\<close>

text \<open>
  C4. A rule of the catalogue that is not manual, has no global check and has a selector
  and an element check, is evaluated to a pass when its selector matches no element of the
  document: in each of the three versions of \<^verbatim>\<open>scanDocument\<close> its entry is in
  \<^verbatim>\<open>passed\<close>, and, rule ids being distinct as they are in the catalogue, no violation
  carries its id. For the first version this is about a scan that returns.
\<close>

theorem vacuous_pass:
  assumes "r \<in> set (dgaRules env)" and "r_type r \<noteq> ''manual''" and "globalCheck r = None"
    and "selector r = Some s" and "s \<noteq> []" and "check r = Some chk"
    and "querySelectorAll env (dom doc) s = []"
  shows "(\<forall>rep. scanDocument_v1 env doc purl = Inr rep \<longrightarrow>
            passed_entry r \<in> set (passed rep) \<and>
            (distinct (map r_id (dgaRules env)) \<longrightarrow> (\<forall>v \<in> set (violations rep). v_id v \<noteq> r_id r))) \<and>
         (\<exists>rep. scanDocument_v2 env doc purl = Inr rep \<and>
            passed_entry r \<in> set (passed rep) \<and>
            (distinct (map r_id (dgaRules env)) \<longrightarrow> (\<forall>v \<in> set (violations rep). v_id v \<noteq> r_id r))) \<and>
         (\<exists>rep. scanDocument_v3 env doc purl = Inr rep \<and>
            passed_entry r \<in> set (passed rep) \<and>
            (distinct (map r_id (dgaRules env)) \<longrightarrow> (\<forall>v \<in> set (violations rep). v_id v \<noteq> r_id r)))"
proof (intro conjI allI impI)
  fix rep
  assume rep: "scanDocument_v1 env doc purl = Inr rep"
  have p: "eval_rule_v1 env doc purl r = Inr (Passed (passed_entry r))"
    using assms(2-7) by (rule vacuous_v1)
  from scanDocument_v1_result [OF rep]
    in_passed_of [where ev = "eval_rule_v1 env doc purl", OF assms(1) p]
  show "passed_entry r \<in> set (passed rep)" by simp
  assume d: "distinct (map r_id (dgaRules env))"
  show "\<forall>v \<in> set (violations rep). v_id v \<noteq> r_id r"
  proof
    fix v assume "v \<in> set (violations rep)"
    then obtain r' where r': "r' \<in> set (dgaRules env)" "eval_rule_v1 env doc purl r' = Inr (Violated v)"
      using scanDocument_v1_result [OF rep] in_violations_of by fastforce
    show "v_id v \<noteq> r_id r"
    proof
      assume "v_id v = r_id r"
      then have "r' = r" using violated_id_v1 [OF r'(2)] distinct_ids [OF d assms(1) r'(1)] by simp
      with r'(2) p show False by simp
    qed
  qed
next
  let ?doc = "tag_document doc purl"
  let ?ev = "\<lambda>r. Inr (eval_rule_v2 env ?doc purl r) :: js_error + verdict"
  obtain vs ps where rep: "scanDocument_v2 env doc purl = Inr (make_report vs ps (page_url_of env purl))"
    and vs: "vs = concat (map (violations_of ?ev) (dgaRules env))"
    and ps: "ps = concat (map (passed_of ?ev) (dgaRules env))"
    using scanDocument_v2_returns by blast
  have p: "?ev r = Inr (Passed (passed_entry r))"
    using assms(2-7) by (simp add: vacuous_v2 tag_document_dom)
  have 1: "passed_entry r \<in> set ps"
    unfolding ps by (rule in_passed_of [where ev = ?ev, OF assms(1) p])
  have 2: "\<forall>v \<in> set vs. v_id v \<noteq> r_id r" if d: "distinct (map r_id (dgaRules env))"
  proof
    fix v assume "v \<in> set vs"
    then obtain r' where r': "r' \<in> set (dgaRules env)" "?ev r' = Inr (Violated v)"
      unfolding vs using in_violations_of by fastforce
    show "v_id v \<noteq> r_id r"
    proof
      assume "v_id v = r_id r"
      moreover have "v_id v = r_id r'" using r'(2) violated_id_v2 by auto
      ultimately have "r' = r" using distinct_ids [OF d assms(1) r'(1)] by simp
      with r'(2) p show False by simp
    qed
  qed
  show "\<exists>rep. scanDocument_v2 env doc purl = Inr rep \<and>
            passed_entry r \<in> set (passed rep) \<and>
            (distinct (map r_id (dgaRules env)) \<longrightarrow> (\<forall>v \<in> set (violations rep). v_id v \<noteq> r_id r))"
    using rep 1 2 by (simp add: make_report_def)
next
  let ?doc = "tag_document doc purl"
  let ?ev = "\<lambda>r. Inr (eval_rule_v3 env ?doc purl r) :: js_error + verdict"
  obtain vs ps where rep: "scanDocument_v3 env doc purl = Inr (make_report vs ps (page_url_of env purl))"
    and vs: "vs = concat (map (violations_of ?ev) (dgaRules env))"
    and ps: "ps = concat (map (passed_of ?ev) (dgaRules env))"
    using scanDocument_v3_returns by blast
  have p: "?ev r = Inr (Passed (passed_entry r))"
    using assms(2-7) by (simp add: vacuous_v3 tag_document_dom)
  have 1: "passed_entry r \<in> set ps"
    unfolding ps by (rule in_passed_of [where ev = ?ev, OF assms(1) p])
  have 2: "\<forall>v \<in> set vs. v_id v \<noteq> r_id r" if d: "distinct (map r_id (dgaRules env))"
  proof
    fix v assume "v \<in> set vs"
    then obtain r' where r': "r' \<in> set (dgaRules env)" "?ev r' = Inr (Violated v)"
      unfolding vs using in_violations_of by fastforce
    show "v_id v \<noteq> r_id r"
    proof
      assume "v_id v = r_id r"
      moreover have "v_id v = r_id r'" using r'(2) violated_id_v3 by auto
      ultimately have "r' = r" using distinct_ids [OF d assms(1) r'(1)] by simp
      with r'(2) p show False by simp
    qed
  qed
  show "\<exists>rep. scanDocument_v3 env doc purl = Inr rep \<and>
            passed_entry r \<in> set (passed rep) \<and>
            (distinct (map r_id (dgaRules env)) \<longrightarrow> (\<forall>v \<in> set (violations rep). v_id v \<noteq> r_id r))"
    using rep 1 2 by (simp add: make_report_def)
qed

lemma bare_page_v2:
  "scanDocument_v2 example_env bare_page (Some ''https://a.example/'') =
     Inr \<lparr>score = 100, violations = [],
          passed = [passed_entry rule_root, passed_entry rule_img, passed_entry rule_upload],
          totalChecks = 3, pageUrl = ''https://a.example/'', error = None\<rparr>"
  by code_simp

theorem vacuous_pass_witness:
  "rule_img \<in> set (dgaRules example_env) \<and> r_type rule_img \<noteq> ''manual'' \<and>
   globalCheck rule_img = None \<and> selector rule_img = Some ''img'' \<and>
   querySelectorAll example_env (dom bare_page) ''img'' = [] \<and>
   distinct (map r_id (dgaRules example_env)) \<and>
   passed_entry rule_img \<in> set (passed \<lparr>score = 100, violations = [],
          passed = [passed_entry rule_root, passed_entry rule_img, passed_entry rule_upload],
          totalChecks = 3, pageUrl = ''https://a.example/'', error = None\<rparr>) \<and>
   scanDocument_v2 example_env bare_page (Some ''https://a.example/'') =
     Inr \<lparr>score = 100, violations = [],
          passed = [passed_entry rule_root, passed_entry rule_img, passed_entry rule_upload],
          totalChecks = 3, pageUrl = ''https://a.example/'', error = None\<rparr>"
proof -
  have 1: "rule_img \<in> set (dgaRules example_env)" by (simp add: example_env_def)
  have 2: "r_type rule_img \<noteq> ''manual''" by (simp add: rule_img_def)
  have 3: "globalCheck rule_img = None" by (simp add: rule_img_def)
  have 4: "selector rule_img = Some ''img''" by (simp add: rule_img_def)
  have 5: "''img'' \<noteq> []" by simp
  have 6: "check rule_img = Some (\<lambda>el. Returns (JBool (snd el \<noteq> ''<img>'')))"
    by (simp add: rule_img_def)
  have 7: "querySelectorAll example_env (dom bare_page) ''img'' = []"
    by (simp add: example_env_def bare_page_def)
  have 8: "distinct (map r_id (dgaRules example_env))"
    by (simp add: example_env_def rule_root_def rule_img_def rule_manual_def rule_upload_def)
  from vacuous_pass [OF 1 2 3 4 5 6 7, of "Some ''https://a.example/''"] bare_page_v2
  have "passed_entry rule_img \<in> set (passed \<lparr>score = 100, violations = [],
          passed = [passed_entry rule_root, passed_entry rule_img, passed_entry rule_upload],
          totalChecks = 3, pageUrl = ''https://a.example/'', error = None\<rparr>)"
    by auto
  then show ?thesis using 1 2 3 4 7 8 bare_page_v2 by blast
qed

section \<open>Predicates that throw\<close>

text \<open>
  C6. The first version of \<^verbatim>\<open>scanDocument\<close> calls the predicates outside any \<^verbatim>\<open>try\<close>:
  with a global check that throws in the catalogue, the call ends with that error and
  returns no report (\<open>scanDocument_v1_throws\<close> below, for any catalogue with such a
  rule). The second and third version catch it (\<open>guarded_v2\<close>, \<open>guarded_v3\<close> below).
\<close>

theorem unguarded_check_propagates:
  "scanDocument_v1 throwing_env bare_page (Some ''https://a.example/'') = Inl (Error ''viewport is null'')"
  by code_simp

lemma element_step_v2_false:
  "fst (foldl (element_step_v2 env chk) (False, st) els) = False"
proof (induction els arbitrary: st)
  case Nil
  then show ?case by simp
next
  case (Cons el els)
  obtain preview reason hf where st: "st = (preview, reason, hf)" by (cases st) auto
  have "fst (element_step_v2 env chk (False, st) el) = False"
    unfolding st by (simp add: Let_def split: outcome.splits)
  then obtain st' where "element_step_v2 env chk (False, st) el = (False, st')"
    by (metis prod.collapse)
  then show ?case using Cons.IH by simp
qed

lemma element_step_v2_throw:
  assumes "el \<in> set els" and "chk el = Throws m"
  shows "fst (foldl (element_step_v2 env chk) st els) = False"
  using assms(1)
proof (induction els arbitrary: st)
  case Nil
  then show ?case by simp
next
  case (Cons x xs)
  obtain allPass preview reason hf where st: "st = (allPass, preview, reason, hf)"
    by (cases st) auto
  show ?case
  proof (cases "x = el")
    case True
    then have "element_step_v2 env chk st x = (False, preview, reason, hf)"
      using assms(2) st by simp
    then show ?thesis by (simp add: element_step_v2_false)
  next
    case False
    with Cons.prems have "el \<in> set xs" by simp
    then show ?thesis using Cons.IH by simp
  qed
qed

lemma element_step_v3_false:
  "fst (foldl (element_step_v3 env chk) (False, preview) els) = False"
proof (induction els arbitrary: preview)
  case Nil
  then show ?case by simp
next
  case (Cons el els)
  have "fst (element_step_v3 env chk (False, preview) el) = False"
    by (simp split: outcome.splits)
  then obtain p' where "element_step_v3 env chk (False, preview) el = (False, p')"
    by (metis prod.collapse)
  then show ?case using Cons.IH by simp
qed

lemma element_step_v3_throw:
  assumes "el \<in> set els" and "chk el = Throws m"
  shows "fst (foldl (element_step_v3 env chk) st els) = False"
  using assms(1)
proof (induction els arbitrary: st)
  case Nil
  then show ?case by simp
next
  case (Cons x xs)
  obtain allPass preview where st: "st = (allPass, preview)" by (cases st)
  show ?case
  proof (cases "x = el")
    case True
    then have "element_step_v3 env chk st x = (False, preview)"
      using assms(2) st by simp
    then show ?thesis by (simp add: element_step_v3_false)
  next
    case False
    with Cons.prems have "el \<in> set xs" by simp
    then show ?thesis using Cons.IH by simp
  qed
qed

lemma guarded_v2:
  assumes "r_type r \<noteq> ''manual''"
  shows "\<exists>rep. scanDocument_v2 env doc purl = Inr rep"
    and "globalCheck r = Some gc \<Longrightarrow> gc d = Throws m \<Longrightarrow>
           eval_rule_v2 env d purl r = Violated (check_error_violation env purl r m)"
    and "globalCheck r = None \<Longrightarrow> selector r = Some s \<Longrightarrow> s \<noteq> [] \<Longrightarrow> check r = Some chk \<Longrightarrow>
           el \<in> set (querySelectorAll env (dom d) s) \<Longrightarrow> chk el = Throws m \<Longrightarrow>
           \<exists>v. eval_rule_v2 env d purl r = Violated v"
proof -
  show "\<exists>rep. scanDocument_v2 env doc purl = Inr rep"
    using scanDocument_v2_returns by blast
  show "eval_rule_v2 env d purl r = Violated (check_error_violation env purl r m)"
    if "globalCheck r = Some gc" "gc d = Throws m"
    using assms that by (simp add: eval_rule_v2_def global_verdict_v2_def)
  show "\<exists>v. eval_rule_v2 env d purl r = Violated v"
    if "globalCheck r = None" "selector r = Some s" "s \<noteq> []" "check r = Some chk"
      "el \<in> set (querySelectorAll env (dom d) s)" "chk el = Throws m"
  proof -
    let ?els = "querySelectorAll env (dom d) s"
    have ne: "length ?els > 0" using that(5) by (cases ?els) auto
    obtain a p rs f where fold: "foldl (element_step_v2 env chk) (True, None, None, None) ?els = (a, p, rs, f)"
      by (metis prod_cases4)
    from element_step_v2_throw [where chk = chk and el = el and env = env
        and st = "(True, None, None, None)", OF that(5,6)] fold
    have "a = False" by simp
    then show ?thesis
      using assms that(1-4) ne fold
      by (simp add: eval_rule_v2_def selector_verdict_v2_def Let_def)
  qed
qed

lemma guarded_v3:
  assumes "r_type r \<noteq> ''manual''"
  shows "\<exists>rep. scanDocument_v3 env doc purl = Inr rep"
    and "globalCheck r = Some gc \<Longrightarrow> gc d = Throws m \<Longrightarrow>
           \<exists>v. eval_rule_v3 env d purl r = Violated v"
    and "globalCheck r = None \<Longrightarrow> selector r = Some s \<Longrightarrow> s \<noteq> [] \<Longrightarrow> check r = Some chk \<Longrightarrow>
           el \<in> set (querySelectorAll env (dom d) s) \<Longrightarrow> chk el = Throws m \<Longrightarrow>
           \<exists>v. eval_rule_v3 env d purl r = Violated v"
proof -
  show "\<exists>rep. scanDocument_v3 env doc purl = Inr rep"
    using scanDocument_v3_returns by blast
  show "\<exists>v. eval_rule_v3 env d purl r = Violated v"
    if "globalCheck r = Some gc" "gc d = Throws m"
    using assms that by (simp add: eval_rule_v3_def global_verdict_v3_def)
  show "\<exists>v. eval_rule_v3 env d purl r = Violated v"
    if "globalCheck r = None" "selector r = Some s" "s \<noteq> []" "check r = Some chk"
      "el \<in> set (querySelectorAll env (dom d) s)" "chk el = Throws m"
  proof -
    let ?els = "querySelectorAll env (dom d) s"
    have ne: "length ?els > 0" using that(5) by (cases ?els) auto
    obtain a p where fold: "foldl (element_step_v3 env chk) (True, None) ?els = (a, p)"
      by (cases "foldl (element_step_v3 env chk) (True, None) ?els")
    from element_step_v3_throw [where chk = chk and el = el and env = env
        and st = "(True, None)", OF that(5,6)] fold
    have "a = False" by simp
    then show ?thesis
      using assms that(1-4) ne fold
      by (simp add: eval_rule_v3_def selector_verdict_v3_def Let_def)
  qed
qed

lemma unguarded_v1:
  assumes "r_type r \<noteq> ''manual''" and "globalCheck r = Some gc" and "gc doc = Throws m"
  shows "eval_rule_v1 env doc purl r = Inl (Error m)"
  using assms by (simp add: eval_rule_v1_def)

lemma run_rules_throw:
  "r \<in> set rs \<Longrightarrow> ev r = Inl e \<Longrightarrow> \<exists>e'. run_rules ev rs acc = Inl e'"
proof (induction rs arbitrary: acc)
  case Nil
  then show ?case by simp
next
  case (Cons x xs)
  obtain vs ps where acc: "acc = (vs, ps)" by (cases acc)
  show ?case
  proof (cases "ev x")
    case (Inl e')
    then show ?thesis using acc by simp
  next
    case (Inr w)
    with Cons.prems have "r \<in> set xs" by auto
    then have "\<exists>e'. run_rules ev xs acc' = Inl e'" for acc'
      using Cons.IH Cons.prems(2) by blast
    then show ?thesis using Inr acc by (cases w) simp_all
  qed
qed

lemma scanDocument_v1_throws:
  assumes "r \<in> set (dgaRules env)" and "r_type r \<noteq> ''manual''" and "globalCheck r = Some gc"
    and "gc doc = Throws m"
  shows "\<exists>e. scanDocument_v1 env doc purl = Inl e"
proof -
  have "eval_rule_v1 env doc purl r = Inl (Error m)"
    using assms(2-4) by (rule unguarded_v1)
  then obtain e where "run_rules (eval_rule_v1 env doc purl) (dgaRules env) ([], []) = Inl e"
    using run_rules_throw [where ev = "eval_rule_v1 env doc purl" and r = r, OF assms(1)] by blast
  then show ?thesis by (simp add: scanDocument_v1_def)
qed

section \<open>Pages that cannot be fetched\<close>

text \<open>
  C5. A page whose fetch fails gets a summary with score 0 and no counts, adds nothing to
  the totals, and the scan goes on with the next URL (\<open>failed_page_step\<close>,
  \<open>one_summary_per_url\<close> below). But the summary has no \<^verbatim>\<open>error\<close> field:
  \<^verbatim>\<open>scanUrl\<close> turns the failure into a report, so \<^verbatim>\<open>scanMultipleUrls\<close> builds the
  summary in its \<^verbatim>\<open>try\<close> branch, which does not copy \<^verbatim>\<open>result.error\<close>; its
  \<^verbatim>\<open>catch\<close> branch, which would write the field, is never entered.
\<close>

theorem failed_page_has_no_error_field:
  "pageResults (scanMultipleUrls (scanUrl_v1 example_env example_pages)
      [''https://a.example/report.pdf?v=1'', ''https://a.example/'']) =
     [\<lparr>s_url = ''https://a.example/report.pdf?v=1'', s_error = None, s_score = 0,
        violationCount = 0, passedCount = 0\<rparr>,
      \<lparr>s_url = ''https://a.example/'', s_error = None, s_score = 67,
        violationCount = 1, passedCount = 2\<rparr>] \<and>
   pageResults (scanMultipleUrls (scanUrl_v2 example_env example_pages)
      [''https://a.example/report.pdf?v=1'', ''https://a.example/'']) =
     [\<lparr>s_url = ''https://a.example/report.pdf?v=1'', s_error = None, s_score = 0,
        violationCount = 0, passedCount = 0\<rparr>,
      \<lparr>s_url = ''https://a.example/'', s_error = None, s_score = 67,
        violationCount = 1, passedCount = 2\<rparr>]"
  by code_simp

lemma failed_page_step:
  assumes "fetch net u = Rejected m \<or> (\<exists>body. fetch net u = Response False body)"
  shows "\<exists>m'. scanUrl_with sd pe net u = Inr (error_report m' u)"
    and "page_step (scanUrl_with sd pe net) (allV, allP, pages) u =
           (allV, allP, pages @ [\<lparr>s_url = u, s_error = None, s_score = 0,
                                   violationCount = 0, passedCount = 0\<rparr>])"
proof -
  show *: "\<exists>m'. scanUrl_with sd pe net u = Inr (error_report m' u)"
    using assms by (auto simp: scanUrl_with_def split: outcome.splits)
  then obtain m' where "scanUrl_with sd pe net u = Inr (error_report m' u)" by blast
  then show "page_step (scanUrl_with sd pe net) (allV, allP, pages) u =
           (allV, allP, pages @ [\<lparr>s_url = u, s_error = None, s_score = 0,
                                   violationCount = 0, passedCount = 0\<rparr>])"
    by (simp add: error_report_def)
qed

lemma scan_pages_all:
  "map s_url (snd (snd (foldl (page_step scan) (allV, allP, pages) urls))) = map s_url pages @ urls"
proof (induction urls arbitrary: allV allP pages)
  case Nil
  then show ?case by simp
next
  case (Cons u urls)
  obtain allV' allP' p where "page_step scan (allV, allP, pages) u = (allV', allP', pages @ [p])" "s_url p = u"
    by (cases "scan u") auto
  then show ?case using Cons.IH by simp
qed

lemma one_summary_per_url:
  "map s_url (pageResults (scanMultipleUrls scan urls)) = urls"
  using scan_pages_all [of scan "[]" "[]" "[]" urls]
  by (cases "scan_pages scan urls") (simp add: scanMultipleUrls_def scan_pages_def)

section \<open>Deduplication\<close>

lemma distinct_in_order_snoc:
  "distinct_in_order (xs @ [x]) = (if x \<in> set xs then distinct_in_order xs else distinct_in_order xs @ [x])"
  by (simp add: distinct_in_order_def)

lemma set_distinct_in_order [simp]: "set (distinct_in_order xs) = set xs"
  by (simp add: distinct_in_order_def)

lemma distinct_in_order_id: "distinct xs \<Longrightarrow> distinct_in_order xs = xs"
  by (simp add: distinct_in_order_def distinct_remdups_id)

lemma dedup_key_extend [simp]:
  "dedup_key (violation.extend v e) = dedup_key v"
  by (simp add: dedup_key_def violation.defs)

lemma truncate_extend [simp]:
  "violation.truncate (violation.extend v (deduped_violation.fields ps n)) = v"
  by (cases v) (simp add: violation.defs deduped_violation.defs)

lemma fields_extend [simp]:
  "affectedPages (violation.extend v (deduped_violation.fields ps n)) = ps"
  "occurrences (violation.extend v (deduped_violation.fields ps n)) = n"
  by (simp_all add: violation.defs deduped_violation.defs)

lemma truncate_update [simp]:
  "violation.truncate (d\<lparr>affectedPages := ps, occurrences := n\<rparr>) = violation.truncate d"
  by (cases d) (simp add: violation.defs)

lemma dedup_key_truncate [simp]: "dedup_key (violation.truncate d) = dedup_key d"
  by (simp add: dedup_key_def violation.defs)

lemma occurrences_of_snoc:
  "occurrences_of k (vs @ [v]) = (if dedup_key v = k then occurrences_of k vs @ [v] else occurrences_of k vs)"
  by (simp add: occurrences_of_def)

lemma occurrences_of_empty: "occurrences_of k vs = [] \<longleftrightarrow> k \<notin> dedup_key ` set vs"
  by (auto simp: occurrences_of_def filter_empty_conv)

lemma entry_ok_other:
  "entry_ok vs k d \<Longrightarrow> dedup_key v \<noteq> k \<Longrightarrow> entry_ok (vs @ [v]) k d"
  by (simp add: entry_ok_def occurrences_of_snoc)

lemma dedup_step_ok:
  assumes "map_ok vs m"
  shows "map_ok (vs @ [v]) (dedup_step m v)"
proof -
  let ?k = "dedup_key v"
  from assms have dist: "distinct (map fst m)" and keys: "fst ` set m = dedup_key ` set vs"
    and ok: "\<And>k d. map_of m k = Some d \<Longrightarrow> entry_ok vs k d"
    by (auto simp: map_ok_def)
  show ?thesis
  proof (cases "map_of m ?k")
    case None
    let ?new = "violation.extend v (deduped_violation.fields [v_pageUrl v] 1)"
    have step: "dedup_step m v = AList.update ?k ?new m"
      using None by (simp add: dedup_step_def)
    have "?k \<notin> fst ` set m" using None by (simp add: map_of_eq_None_iff)
    then have empty: "occurrences_of ?k vs = []" using keys by (simp add: occurrences_of_empty)
    have new: "entry_ok (vs @ [v]) ?k ?new"
      by (simp add: entry_ok_def occurrences_of_snoc empty distinct_in_order_def)
    have "entry_ok (vs @ [v]) k d" if "map_of (AList.update ?k ?new m) k = Some d" for k d
      using that new ok entry_ok_other by (auto simp: update_conv' split: if_splits)
    moreover have "distinct (map fst (AList.update ?k ?new m))"
      using dist by (rule distinct_update)
    moreover have "fst ` set (AList.update ?k ?new m) = dedup_key ` set (vs @ [v])"
      using keys by (auto simp: dom_update)
    ultimately show ?thesis unfolding step map_ok_def by blast
  next
    case (Some existing)
    then have ex: "entry_ok vs ?k existing" by (rule ok)
    have "(?k, existing) \<in> set m" using Some by (rule map_of_SomeD)
    then have kin: "?k \<in> fst ` set m" by force
    let ?occ = "occurrences_of ?k vs"
    from ex have pages: "affectedPages existing = distinct_in_order (map v_pageUrl ?occ)"
      and ne: "?occ \<noteq> []" by (simp_all add: entry_ok_def)
    show ?thesis
    proof (cases "v_pageUrl v \<in> set (affectedPages existing)")
      case True
      then have step: "dedup_step m v = m" using Some by (simp add: dedup_step_def)
      have "entry_ok (vs @ [v]) ?k existing"
        using ex True ne by (simp add: entry_ok_def occurrences_of_snoc distinct_in_order_snoc)
      then have "entry_ok (vs @ [v]) k d" if "map_of m k = Some d" for k d
        using that ok [OF that] Some entry_ok_other by (cases "k = ?k") auto
      moreover have "fst ` set m = dedup_key ` set (vs @ [v])"
        using keys kin by auto
      ultimately show ?thesis unfolding step map_ok_def using dist by blast
    next
      case False
      let ?new = "existing\<lparr>affectedPages := affectedPages existing @ [v_pageUrl v],
                             occurrences := occurrences existing + 1\<rparr>"
      have step: "dedup_step m v = AList.update ?k ?new m"
        using Some False by (simp add: dedup_step_def)
      have new: "entry_ok (vs @ [v]) ?k ?new"
        using ex False ne
        by (simp add: entry_ok_def occurrences_of_snoc distinct_in_order_snoc dedup_key_def)
      have "entry_ok (vs @ [v]) k d" if "map_of (AList.update ?k ?new m) k = Some d" for k d
        using that new ok entry_ok_other by (auto simp: update_conv' split: if_splits)
      moreover have "distinct (map fst (AList.update ?k ?new m))"
        using dist by (rule distinct_update)
      moreover have "fst ` set (AList.update ?k ?new m) = dedup_key ` set (vs @ [v])"
        using keys kin by (auto simp: dom_update)
      ultimately show ?thesis unfolding step map_ok_def by blast
    qed
  qed
qed

lemma dedup_map_ok: "map_ok vs (foldl dedup_step [] vs)"
proof (induction vs rule: rev_induct)
  case Nil
  then show ?case by (simp add: map_ok_def)
next
  case (snoc v vs)
  then show ?case by (simp add: dedup_step_ok)
qed

lemma dedup_entries:
  assumes "d \<in> set (dedup vs)"
  shows "entry_ok vs (dedup_key d) d"
proof -
  let ?m = "foldl dedup_step [] vs"
  have ok: "map_ok vs ?m" by (rule dedup_map_ok)
  from assms obtain k where kd: "(k, d) \<in> set ?m" by (auto simp: dedup_def)
  with ok have "map_of ?m k = Some d" by (simp add: map_ok_def)
  with ok have "entry_ok vs k d" by (simp add: map_ok_def)
  then show ?thesis by (simp add: entry_ok_def)
qed

lemma dedup_keys:
  "map dedup_key (dedup vs) = map fst (foldl dedup_step [] vs)"
proof -
  let ?m = "foldl dedup_step [] vs"
  have ok: "map_ok vs ?m" by (rule dedup_map_ok)
  have "dedup_key (snd e) = fst e" if "e \<in> set ?m" for e
  proof -
    obtain k d where e: "e = (k, d)" by (cases e)
    with that ok have "map_of ?m k = Some d" by (simp add: map_ok_def)
    with ok have "entry_ok vs k d" by (simp add: map_ok_def)
    then show ?thesis using e by (simp add: entry_ok_def)
  qed
  then show ?thesis by (simp add: dedup_def)
qed

text \<open>
  C2, as the code has it. The deduplicated list of \<^verbatim>\<open>scanMultipleUrls\<close> has exactly one
  entry for each key \<^verbatim>\<open>id + "-" + description\<close> among the collected violations. The
  entry is the first violation with that key, \<^verbatim>\<open>affectedPages\<close> lists the pages of the
  violations with that key in order of first appearance, each page once, and
  \<^verbatim>\<open>occurrences\<close> is the length of \<^verbatim>\<open>affectedPages\<close>: an occurrence on a page that is
  already listed is not counted. So when the violations with a key come from different
  pages, \<^verbatim>\<open>affectedPages\<close> has one page for each and \<^verbatim>\<open>occurrences\<close> is their number.
\<close>

theorem dedup_collapses:
  "violations (scanMultipleUrls scan urls) = dedup (fst (scan_pages scan urls)) \<and>
   distinct (map dedup_key (dedup vs)) \<and>
   set (map dedup_key (dedup vs)) = dedup_key ` set vs \<and>
   (\<forall>d \<in> set (dedup vs).
      occurrences_of (dedup_key d) vs \<noteq> [] \<and>
      violation.truncate d = hd (occurrences_of (dedup_key d) vs) \<and>
      affectedPages d = distinct_in_order (map v_pageUrl (occurrences_of (dedup_key d) vs)) \<and>
      occurrences d = length (affectedPages d) \<and>
      (distinct (map v_pageUrl (occurrences_of (dedup_key d) vs)) \<longrightarrow>
         affectedPages d = map v_pageUrl (occurrences_of (dedup_key d) vs) \<and>
         occurrences d = length (occurrences_of (dedup_key d) vs)))"
proof (intro conjI ballI)
  show "violations (scanMultipleUrls scan urls) = dedup (fst (scan_pages scan urls))"
    by (cases "scan_pages scan urls") (simp add: scanMultipleUrls_def)
  have ok: "map_ok vs (foldl dedup_step [] vs)" by (rule dedup_map_ok)
  show "distinct (map dedup_key (dedup vs))"
    using ok by (simp add: dedup_keys map_ok_def)
  show "set (map dedup_key (dedup vs)) = dedup_key ` set vs"
    using ok by (simp add: dedup_keys map_ok_def)
next
  fix d assume d: "d \<in> set (dedup vs)"
  let ?occ = "occurrences_of (dedup_key d) vs"
  from dedup_entries [OF d]
  show "?occ \<noteq> []" and "violation.truncate d = hd ?occ"
    and a: "affectedPages d = distinct_in_order (map v_pageUrl ?occ)"
    and o: "occurrences d = length (affectedPages d)"
    by (simp_all add: entry_ok_def)
  show "distinct (map v_pageUrl ?occ) \<longrightarrow>
         affectedPages d = map v_pageUrl ?occ \<and> occurrences d = length ?occ"
    using a o by (simp add: distinct_in_order_id)
qed

lemma three_pages_dedup:
  "dedup three_pages =
     [violation.extend (img_violation ''https://a.example/'')
        (deduped_violation.fields
           [''https://a.example/'', ''https://a.example/about'', ''https://a.example/contact''] 3)]"
  by code_simp

theorem dedup_collapses_witness:
  "dedup three_pages =
     [violation.extend (img_violation ''https://a.example/'')
        (deduped_violation.fields
           [''https://a.example/'', ''https://a.example/about'', ''https://a.example/contact''] 3)] \<and>
   distinct (map v_pageUrl (occurrences_of ''2-Images carry attributes'' three_pages)) \<and>
   length (occurrences_of ''2-Images carry attributes'' three_pages) = 3 \<and>
   occurrences (violation.extend (img_violation ''https://a.example/'')
        (deduped_violation.fields
           [''https://a.example/'', ''https://a.example/about'', ''https://a.example/contact''] 3)) = 3"
proof -
  let ?d = "violation.extend (img_violation ''https://a.example/'')
        (deduped_violation.fields
           [''https://a.example/'', ''https://a.example/about'', ''https://a.example/contact''] 3)"
  have k: "dedup_key ?d = ''2-Images carry attributes''" by code_simp
  have 1: "distinct (map v_pageUrl (occurrences_of ''2-Images carry attributes'' three_pages))"
    by code_simp
  have 2: "length (occurrences_of ''2-Images carry attributes'' three_pages) = 3"
    by code_simp
  have "?d \<in> set (dedup three_pages)" by (simp add: three_pages_dedup)
  with dedup_collapses [of "scanUrl_v2 example_env example_pages" "[]" three_pages] 1 2 k
  have "occurrences ?d = 3" by simp
  then show ?thesis using three_pages_dedup 1 2 by blast
qed

text \<open>
  The same page scanned twice: two violations with one key are collected, the second is
  an occurrence of a known key, and \<^verbatim>\<open>occurrences\<close> stays at one.
\<close>

theorem dedup_collapses_counterexample:
  "totalViolationsBeforeDedup (scanMultipleUrls (scanUrl_v2 example_env example_pages)
       [''https://a.example/'', ''https://a.example/'']) = 2 \<and>
   map dedup_key (violations (scanMultipleUrls (scanUrl_v2 example_env example_pages)
       [''https://a.example/'', ''https://a.example/''])) = [''2-Images carry attributes''] \<and>
   map affectedPages (violations (scanMultipleUrls (scanUrl_v2 example_env example_pages)
       [''https://a.example/'', ''https://a.example/''])) = [[''https://a.example/'']] \<and>
   map occurrences (violations (scanMultipleUrls (scanUrl_v2 example_env example_pages)
       [''https://a.example/'', ''https://a.example/''])) = [1]"
  by code_simp

section \<open>Rounding error of the score\<close>

lemma round_even_error: "\<bar>of_int (round_even x) - x\<bar> \<le> 1 / 2"
proof -
  have "of_int \<lfloor>x\<rfloor> \<le> x" "x < of_int \<lfloor>x\<rfloor> + 1" by linarith+
  then show ?thesis by (auto simp: round_even_def Let_def)
qed

lemma quotient_of_pos:
  assumes "0 < x" "quotient_of x = (a, b)"
  shows "0 < a" "0 < b" "x = of_int a / of_int b"
  using assms quotient_of_denom_pos [of x a b] quotient_of_div [of x a b]
  by (auto simp: zero_less_divide_iff)

lemma ilog2_lower:
  assumes "0 < x"
  shows "2 powi (ilog2 x) \<le> x"
proof -
  obtain a b where q: "quotient_of x = (a, b)" by (cases "quotient_of x")
  note ab = quotient_of_pos [OF assms q]
  let ?k = "bitlen a - bitlen b"
  show ?thesis
  proof (cases "2 powi ?k \<le> x")
    case True
    then show ?thesis by (simp add: ilog2_def q)
  next
    case False
    then have e: "ilog2 x = ?k - 1" by (simp add: ilog2_def q)
    from bitlen_bounds [OF ab(1)] have la: "2 ^ nat (bitlen a - 1) \<le> a" by simp
    from bitlen_bounds [OF ab(2)] have lb: "b < 2 ^ nat (bitlen b)" by simp
    have a1: "bitlen a \<ge> 1" using ab(1) by (simp add: bitlen_alt_def)
    have b1: "bitlen b \<ge> 1" using ab(2) by (simp add: bitlen_alt_def)
    have eq: "?k - 1 = (bitlen a - 1) - bitlen b" by simp
    have "(2::rat) powi (?k - 1) = 2 powi (bitlen a - 1) / 2 powi (bitlen b)"
      unfolding eq by (rule power_int_diff) simp
    also have "\<dots> = 2 ^ nat (bitlen a - 1) / 2 ^ nat (bitlen b)"
      using a1 b1 by (simp add: power_int_def)
    also have "\<dots> \<le> of_int a / of_int b"
    proof -
      have "(2::rat) ^ nat (bitlen a - 1) \<le> of_int a"
        using la by (metis of_int_le_iff of_int_numeral of_int_power)
      moreover have "of_int b \<le> (2::rat) ^ nat (bitlen b)"
        using lb by (metis less_imp_le of_int_le_iff of_int_numeral of_int_power)
      moreover have "(0::rat) < of_int b" using ab(2) by simp
      ultimately show ?thesis
        using ab(1) by (intro frac_le) auto
    qed
    finally show ?thesis using e ab(3) by simp
  qed
qed

text \<open>
  With \<open>ilog2_lower\<close>: \<open>x\<close> divided by its unit in the last place lies between
  \<open>2^52\<close> and \<open>2^53\<close>, so \<open>binary64\<close> keeps 53 significant bits.
\<close>

lemma ilog2_upper:
  assumes "0 < x"
  shows "x < 2 powi (ilog2 x + 1)"
proof -
  obtain a b where q: "quotient_of x = (a, b)" by (cases "quotient_of x")
  note ab = quotient_of_pos [OF assms q]
  let ?k = "bitlen a - bitlen b"
  show ?thesis
  proof (cases "2 powi ?k \<le> x")
    case False
    then show ?thesis by (simp add: ilog2_def q)
  next
    case True
    then have e: "ilog2 x = ?k" by (simp add: ilog2_def q)
    from bitlen_bounds [OF ab(1)] have la: "a < 2 ^ nat (bitlen a)" by simp
    from bitlen_bounds [OF ab(2)] have lb: "2 ^ nat (bitlen b - 1) \<le> b" by simp
    have a1: "bitlen a \<ge> 1" using ab(1) by (simp add: bitlen_alt_def)
    have b1: "bitlen b \<ge> 1" using ab(2) by (simp add: bitlen_alt_def)
    have eq: "?k + 1 = bitlen a - (bitlen b - 1)" by simp
    have "of_int a / of_int b < (2::rat) ^ nat (bitlen a) / 2 ^ nat (bitlen b - 1)"
    proof -
      have "of_int a < (2::rat) ^ nat (bitlen a)"
        using la by (metis of_int_less_iff of_int_numeral of_int_power)
      moreover have "(2::rat) ^ nat (bitlen b - 1) \<le> of_int b"
        using lb by (metis of_int_le_iff of_int_numeral of_int_power)
      moreover have "(0::rat) < 2 ^ nat (bitlen b - 1)" by simp
      ultimately show ?thesis
        using ab(1) by (intro frac_less) auto
    qed
    also have "\<dots> = 2 powi (bitlen a) / 2 powi (bitlen b - 1)"
      using a1 b1 by (simp add: power_int_def)
    also have "\<dots> = (2::rat) powi (?k + 1)"
      unfolding eq by (rule power_int_diff [symmetric]) simp
    finally show ?thesis using e ab(3) by simp
  qed
qed

lemma binary64_error:
  assumes "0 < x"
  shows "\<bar>binary64 x - x\<bar> \<le> x / 2 ^ 53"
proof -
  let ?e = "ilog2 x"
  let ?ulp = "(2::rat) powi (?e - 52)"
  have pos: "0 < ?ulp" by simp
  have b: "binary64 x = of_int (round_even (x / ?ulp)) * ?ulp"
    using assms by (simp add: binary64_def Let_def)
  have "\<bar>binary64 x - x\<bar> = \<bar>of_int (round_even (x / ?ulp)) - x / ?ulp\<bar> * ?ulp"
  proof -
    have "binary64 x - x = (of_int (round_even (x / ?ulp)) - x / ?ulp) * ?ulp"
      using pos by (simp add: b field_simps)
    then show ?thesis using pos by (simp add: abs_mult)
  qed
  also have "\<dots> \<le> 1 / 2 * ?ulp"
    using round_even_error [of "x / ?ulp"] pos by (intro mult_right_mono) auto
  also have "\<dots> = 2 powi ?e / 2 ^ 53"
  proof -
    have "?e - 52 = ?e - 52" by simp
    have "(2::rat) powi (?e - 52) = 2 powi ?e / 2 powi 52"
      by (rule power_int_diff) simp
    then show ?thesis by simp
  qed
  also have "\<dots> \<le> x / 2 ^ 53"
    using ilog2_lower [OF assms] by (simp add: divide_right_mono)
  finally show ?thesis .
qed

lemma percentage_error:
  fixes p t :: nat
  assumes "0 < p" "p \<le> t"
  shows "\<bar>js_mul (js_div (of_nat p) (of_nat t)) 100 - 100 * of_nat p / of_nat t\<bar> \<le> 201 / 2 ^ 53"
proof -
  let ?x = "of_nat p / of_nat t :: rat"
  let ?q = "binary64 ?x"
  let ?y = "?q * 100"
  let ?z = "binary64 ?y"
  have t: "0 < t" using assms by simp
  have x0: "0 < ?x" using assms t by simp
  have x1: "?x \<le> 1" using assms t by simp
  have q: "\<bar>?q - ?x\<bar> \<le> ?x / 2 ^ 53" by (rule binary64_error [OF x0])
  have "?x / 2 ^ 53 \<le> 1 / 2 ^ 53" using x1 by (simp add: divide_right_mono)
  with q have q1: "\<bar>?q - ?x\<bar> \<le> 1 / 2 ^ 53" by linarith
  have "?x / 2 ^ 53 < ?x" using x0 by simp
  with q have q0: "0 < ?q" by linarith
  have qle: "?q \<le> 1 + 1 / 2 ^ 53" using q1 x1 by linarith
  have y0: "0 < ?y" using q0 by simp
  have z: "\<bar>?z - ?y\<bar> \<le> ?y / 2 ^ 53" by (rule binary64_error [OF y0])
  have "?y / 2 ^ 53 \<le> (1 + 1 / 2 ^ 53) * 100 / 2 ^ 53"
    using qle by (simp add: divide_right_mono)
  also have "\<dots> \<le> 101 / 2 ^ 53" by simp
  finally have z1: "\<bar>?z - ?y\<bar> \<le> 101 / 2 ^ 53" using z by linarith
  have "?y - 100 * ?x = 100 * (?q - ?x)" by (simp add: algebra_simps)
  then have "\<bar>?y - 100 * ?x\<bar> = 100 * \<bar>?q - ?x\<bar>" by (simp only: abs_mult abs_numeral)
  then have y1: "\<bar>?y - 100 * ?x\<bar> \<le> 100 / 2 ^ 53" using q1 by simp
  have "\<bar>?z - 100 * ?x\<bar> \<le> \<bar>?z - ?y\<bar> + \<bar>?y - 100 * ?x\<bar>" by linarith
  with z1 y1 have "\<bar>?z - 100 * ?x\<bar> \<le> 201 / 2 ^ 53" by linarith
  then show ?thesis by (simp add: js_mul_def js_div_def)
qed

lemma nearest_integer:
  fixes p t :: nat and z :: rat
  assumes t: "0 < t" "t < 2 ^ 33"
    and z: "\<bar>z - 100 * of_nat p / of_nat t\<bar> \<le> 201 / 2 ^ 53"
  shows "\<bar>of_int (Math_round z) - 100 * of_nat p / of_nat t\<bar> \<le> (1 / 2 :: rat)"
proof -
  define n where "n = Math_round z"
  define w :: rat where "w = 100 * of_nat p / of_nat t"
  define T :: rat where "T = of_nat t"
  define d :: rat where "d = 201 / 2 ^ 53"
  have T0: "0 < T" using t by (simp add: T_def)
  have T1: "T < 2 ^ 33"
    unfolding T_def using t(2) by (metis of_nat_less_iff of_nat_numeral of_nat_power)
  have zd: "\<bar>z - w\<bar> \<le> d" using z by (simp add: d_def w_def)
  have n1: "of_int n \<le> z + 1 / 2" and n2: "z + 1 / 2 < of_int n + 1"
    unfolding n_def Math_round_def by linarith+
  have d0: "0 \<le> d" by (simp add: d_def)
  have "2 * T * d \<le> 2 * 2 ^ 33 * d"
    using T1 d0 by (intro mult_right_mono mult_left_mono) auto
  also have "\<dots> < (1::rat)" by (simp add: d_def)
  finally have small: "2 * T * d < 1" .
  have wT: "w * (2 * T) = of_int (200 * int p)"
    using T0 by (simp add: w_def T_def)
  have lo: "of_int n - 1 / 2 - d \<le> w" using zd n1 by linarith
  have hi: "w < of_int n + 1 / 2 + d" using zd n2 by linarith
  have "(of_int n - 1 / 2 - d) * (2 * T) \<le> w * (2 * T)"
    using lo T0 by (intro mult_right_mono) auto
  then have "of_int ((2 * n - 1) * int t) - 2 * T * d \<le> of_int (200 * int p)"
    unfolding wT by (simp add: algebra_simps T_def)
  with small have "of_int ((2 * n - 1) * int t) - 1 < (of_int (200 * int p) :: rat)" by linarith
  then have "(of_int ((2 * n - 1) * int t - 1) :: rat) < of_int (200 * int p)" by simp
  then have "(2 * n - 1) * int t - 1 < 200 * int p" by (simp only: of_int_less_iff)
  then have A: "(2 * n - 1) * int t \<le> 200 * int p" by simp
  have "w * (2 * T) < (of_int n + 1 / 2 + d) * (2 * T)"
    using hi T0 by (intro mult_strict_right_mono) auto
  then have "of_int (200 * int p) < of_int ((2 * n + 1) * int t) + 2 * T * d"
    unfolding wT by (simp add: algebra_simps T_def)
  with small have "(of_int (200 * int p) :: rat) < of_int ((2 * n + 1) * int t) + 1" by linarith
  then have "(of_int (200 * int p) :: rat) < of_int ((2 * n + 1) * int t + 1)" by simp
  then have "200 * int p < (2 * n + 1) * int t + 1" by (simp only: of_int_less_iff)
  then have B: "200 * int p \<le> (2 * n + 1) * int t" by simp
  have "(of_int ((2 * n - 1) * int t) :: rat) \<le> of_int (200 * int p)"
    using A by (simp only: of_int_le_iff)
  then have "(of_int n - 1 / 2) * (2 * T) \<le> w * (2 * T)"
    unfolding wT by (simp add: algebra_simps T_def)
  then have A': "of_int n - 1 / 2 \<le> w" using T0 by (simp add: mult_le_cancel_right)
  have "(of_int (200 * int p) :: rat) \<le> of_int ((2 * n + 1) * int t)"
    using B by (simp only: of_int_le_iff)
  then have "w * (2 * T) \<le> (of_int n + 1 / 2) * (2 * T)"
    unfolding wT by (simp add: algebra_simps T_def)
  then have B': "w \<le> of_int n + 1 / 2" using T0 by (simp add: mult_le_cancel_right)
  from A' B' have "\<bar>of_int n - w\<bar> \<le> 1 / 2" by linarith
  then show ?thesis by (simp add: n_def w_def)
qed

lemma floor_half: "\<lfloor>1 / 2 :: rat\<rfloor> = 0"
  by (rule floor_unique) simp_all

lemma compliance_score_nearest:
  assumes "0 < nv + np" "nv + np < 2 ^ 33"
  shows "\<bar>of_int (compliance_score nv np) - 100 * of_nat np / of_nat (nv + np)\<bar> \<le> (1 / 2 :: rat)"
proof (cases "np = 0")
  case True
  then show ?thesis using assms by (simp add: compliance_score_def js_div_def js_mul_def binary64_def Math_round_def floor_half)
next
  case False
  then have p: "0 < np" "np \<le> nv + np" by simp_all
  have "\<bar>of_int (Math_round (js_mul (js_div (of_nat np) (of_nat (nv + np))) 100))
          - 100 * of_nat np / of_nat (nv + np)\<bar> \<le> (1 / 2 :: rat)"
    using assms percentage_error [OF p] by (intro nearest_integer) auto
  then show ?thesis using assms(1) by (simp add: compliance_score_def)
qed

lemma compliance_score_round:
  assumes "0 < nv + np" "nv + np < 2 ^ 33"
    and "frac (100 * of_nat np / of_nat (nv + np) :: rat) \<noteq> 1 / 2"
  shows "compliance_score nv np = round (100 * of_nat np / of_nat (nv + np) :: rat)"
proof -
  let ?w = "100 * of_nat np / of_nat (nv + np) :: rat"
  let ?n = "compliance_score nv np"
  have n: "\<bar>of_int ?n - ?w\<bar> \<le> 1 / 2" by (rule compliance_score_nearest [OF assms(1,2)])
  have "?w \<noteq> of_int ?n + 1 / 2"
  proof
    assume "?w = of_int ?n + 1 / 2"
    then have "frac ?w = frac (of_int ?n + (1 / 2 :: rat))" by simp
    also have "\<dots> = 1 / 2" by (simp add: frac_def floor_half)
    finally show False using assms(3) by simp
  qed
  with n have "of_int ?n \<le> ?w + 1 / 2" "?w + 1 / 2 < of_int ?n + 1" by linarith+
  then have "\<lfloor>?w + 1 / 2\<rfloor> = ?n" by (rule floor_unique)
  then show ?thesis by (simp add: round_def)
qed

section \<open>The score\<close>

lemma make_report_fields:
  "score (make_report vs ps u) = compliance_score (length vs) (length ps)"
  "violations (make_report vs ps u) = vs"
  "passed (make_report vs ps u) = ps"
  "totalChecks (make_report vs ps u) = length vs + length ps"
  by (simp_all add: make_report_def)

lemma scanDocument_scores:
  assumes "scanDocument_v1 env doc purl = Inr rep \<or> scanDocument_v2 env doc purl = Inr rep \<or>
           scanDocument_v3 env doc purl = Inr rep"
  shows "score rep = compliance_score (length (violations rep)) (length (passed rep)) \<and>
         totalChecks rep = length (violations rep) + length (passed rep)"
  using assms
  by (auto simp: scanDocument_v1_def scanDocument_v2_def scanDocument_v3_def make_report_fields
           split: sum.splits prod.splits)

text \<open>
  C1, as the code has it. In every report of \<^verbatim>\<open>scanDocument\<close> and of
  \<^verbatim>\<open>scanMultipleUrls\<close> (there over the totals before deduplication), \<^verbatim>\<open>totalChecks\<close>
  is the number of passed checks plus the number of violations, and the score is
  \<^verbatim>\<open>Math.round((passed / total) * 100)\<close> computed on binary64 numbers, or 100 when the
  total is zero. For a total below \<open>2^33\<close> (two JavaScript arrays) that score is an
  integer nearest to \<open>100 * passed / total\<close>; it is \<open>round (100 * passed / total)\<close>
  whenever that quotient is not exactly halfway between two integers. Seven passed checks
  and three violations give 70.
\<close>

theorem score_formula:
  "(scanDocument_v1 env doc purl = Inr rep \<or> scanDocument_v2 env doc purl = Inr rep \<or>
    scanDocument_v3 env doc purl = Inr rep \<longrightarrow>
      score rep = compliance_score (length (violations rep)) (length (passed rep)) \<and>
      totalChecks rep = length (violations rep) + length (passed rep)) \<and>
   score (scanMultipleUrls scan urls) =
     compliance_score (totalViolationsBeforeDedup (scanMultipleUrls scan urls))
       (length (passed (scanMultipleUrls scan urls))) \<and>
   totalChecks (scanMultipleUrls scan urls) =
     totalViolationsBeforeDedup (scanMultipleUrls scan urls) + length (passed (scanMultipleUrls scan urls)) \<and>
   (nv + np = 0 \<longrightarrow> compliance_score nv np = 100) \<and>
   (0 < nv + np \<and> nv + np < 2 ^ 33 \<longrightarrow>
      \<bar>of_int (compliance_score nv np) - 100 * of_nat np / of_nat (nv + np)\<bar> \<le> (1 / 2 :: rat) \<and>
      (frac (100 * of_nat np / of_nat (nv + np) :: rat) \<noteq> 1 / 2 \<longrightarrow>
         compliance_score nv np = round (100 * of_nat np / of_nat (nv + np) :: rat))) \<and>
   compliance_score 3 7 = 70"
proof (intro conjI impI)
  assume "scanDocument_v1 env doc purl = Inr rep \<or> scanDocument_v2 env doc purl = Inr rep \<or>
    scanDocument_v3 env doc purl = Inr rep"
  then show "score rep = compliance_score (length (violations rep)) (length (passed rep))"
    and "totalChecks rep = length (violations rep) + length (passed rep)"
    using scanDocument_scores by blast+
next
  show "score (scanMultipleUrls scan urls) =
     compliance_score (totalViolationsBeforeDedup (scanMultipleUrls scan urls))
       (length (passed (scanMultipleUrls scan urls)))"
    by (cases "scan_pages scan urls") (simp add: scanMultipleUrls_def)
  show "totalChecks (scanMultipleUrls scan urls) =
     totalViolationsBeforeDedup (scanMultipleUrls scan urls) + length (passed (scanMultipleUrls scan urls))"
    by (cases "scan_pages scan urls") (simp add: scanMultipleUrls_def)
  show "compliance_score 3 7 = 70" by code_simp
next
  assume "nv + np = 0"
  then show "compliance_score nv np = 100" by (simp add: compliance_score_def)
next
  assume a: "0 < nv + np \<and> nv + np < 2 ^ 33"
  then show "\<bar>of_int (compliance_score nv np) - 100 * of_nat np / of_nat (nv + np)\<bar> \<le> (1 / 2 :: rat)"
    using compliance_score_nearest [of nv np] by blast
  assume "frac (100 * of_nat np / of_nat (nv + np) :: rat) \<noteq> 1 / 2"
  with a show "compliance_score nv np = round (100 * of_nat np / of_nat (nv + np) :: rat)"
    using compliance_score_round [of nv np] by blast
qed

lemma img_page_v2:
  "scanDocument_v2 example_env img_page (Some ''https://a.example/'') =
     Inr (make_report
            [violation_entry rule_img ''https://a.example/'' (Some ''<img>'')
               (Some ''Rule #2 check failed'') (Some default_fix)]
            [passed_entry rule_root, passed_entry rule_upload] ''https://a.example/'')"
  by code_simp

theorem score_formula_witness:
  "scanDocument_v2 example_env img_page (Some ''https://a.example/'') =
     Inr (make_report
            [violation_entry rule_img ''https://a.example/'' (Some ''<img>'')
               (Some ''Rule #2 check failed'') (Some default_fix)]
            [passed_entry rule_root, passed_entry rule_upload] ''https://a.example/'') \<and>
   score (make_report
            [violation_entry rule_img ''https://a.example/'' (Some ''<img>'')
               (Some ''Rule #2 check failed'') (Some default_fix)]
            [passed_entry rule_root, passed_entry rule_upload] ''https://a.example/'') = 67 \<and>
   (0::nat) < 1 + 2 \<and> (1::nat) + 2 < 2 ^ 33 \<and>
   frac (100 * of_nat 2 / of_nat (1 + 2) :: rat) \<noteq> 1 / 2 \<and>
   compliance_score 1 2 = round (100 * of_nat 2 / of_nat (1 + 2) :: rat) \<and>
   compliance_score 1 2 = 67"
proof -
  have 1: "(0::nat) < 1 + 2 \<and> (1::nat) + 2 < 2 ^ 33" by simp
  have 2: "frac (100 * of_nat 2 / of_nat (1 + 2) :: rat) \<noteq> 1 / 2" by code_simp
  have 3: "compliance_score 1 2 = 67" by code_simp
  have 4: "score (make_report
            [violation_entry rule_img ''https://a.example/'' (Some ''<img>'')
               (Some ''Rule #2 check failed'') (Some default_fix)]
            [passed_entry rule_root, passed_entry rule_upload] ''https://a.example/'') = 67"
    by code_simp
  from score_formula [of example_env img_page "Some ''https://a.example/''"
      "make_report
            [violation_entry rule_img ''https://a.example/'' (Some ''<img>'')
               (Some ''Rule #2 check failed'') (Some default_fix)]
            [passed_entry rule_root, passed_entry rule_upload] ''https://a.example/''"
      "scanUrl_v2 example_env example_pages" "[]" 1 2] 1 2
  have "compliance_score 1 2 = round (100 * of_nat 2 / of_nat (1 + 2) :: rat)" by blast
  then show ?thesis using img_page_v2 1 2 3 4 by blast
qed

text \<open>
  Twenty-three passed checks and seventeen violations: \<open>100 * 23 / 40 = 57.5\<close> rounds to
  58, but \<^verbatim>\<open>23 / 40\<close> is not a binary64 number and \<^verbatim>\<open>(23 / 40) * 100\<close> comes out just
  below 57.5, so the score is 57.
\<close>

theorem score_formula_counterexample:
  "map_sum id (length \<circ> passed) (scanDocument_v2 forty_rules img_page (Some ''https://a.example/'')) = Inr 23 \<and>
   map_sum id (length \<circ> violations) (scanDocument_v2 forty_rules img_page (Some ''https://a.example/'')) = Inr 17 \<and>
   map_sum id score (scanDocument_v2 forty_rules img_page (Some ''https://a.example/'')) = Inr 57 \<and>
   round (100 * 23 / (23 + 17) :: rat) = 58"
proof -
  have "round (100 * 23 / (23 + 17) :: rat) = 58" by code_simp
  moreover have "map_sum id (length \<circ> passed) (scanDocument_v2 forty_rules img_page (Some ''https://a.example/'')) = Inr 23"
    by code_simp
  moreover have "map_sum id (length \<circ> violations) (scanDocument_v2 forty_rules img_page (Some ''https://a.example/'')) = Inr 17"
    by code_simp
  moreover have "map_sum id score (scanDocument_v2 forty_rules img_page (Some ''https://a.example/'')) = Inr 57"
    by code_simp
  ultimately show ?thesis by blast
qed

end
